theory Spec2Isabelle
  imports Main "HOL-Library.Word" "HOL-Library.Signed_Division" "HOL-Library.Monad_Syntax"
begin

section \<open>The bitmap container (png.h)\<close>

text \<open>
  Modelled from the spec: the classes RGBAPixel and PNG of png.h, which quadtree.cpp
  includes and which is not among the sources. The spec (sections 1 and 3) gives a color
  four independent 8-bit unsigned channels, and gives the container a width, a height and
  coordinate-indexed access \<open>pixelAt(x,y)\<close> / \<open>setPixelAt(x,y,color)\<close> (the C++
  \<open>source(x, y)\<close>, read or written through the returned pointer). An access outside
  the container is a violation of the caller's contract: it is the value \<open>None\<close>.

  What the default constructors \<open>RGBAPixel()\<close> and \<open>PNG()\<close> produce, and what a
  fresh \<open>PNG(w, h)\<close> holds, is not visible either: the operations below take these
  values as parameters (\<open>dflt\<close>, \<open>emptyPNG\<close>, \<open>init\<close>).
\<close>

record RGBAPixel =
  red :: "8 word"
  green :: "8 word"
  blue :: "8 word"
  alpha :: "8 word"

record PNG =
  width :: int
  height :: int
  pixels :: "int \<times> int \<Rightarrow> RGBAPixel"

definition inside :: "PNG \<Rightarrow> int \<Rightarrow> int \<Rightarrow> bool" where
  "inside img x y = (0 \<le> x \<and> x < width img \<and> 0 \<le> y \<and> y < height img)"

definition pixelAt :: "PNG \<Rightarrow> int \<Rightarrow> int \<Rightarrow> RGBAPixel option" where
  "pixelAt img x y = (if inside img x y then Some (pixels img (x, y)) else None)"

definition setPixelAt :: "PNG \<Rightarrow> int \<Rightarrow> int \<Rightarrow> RGBAPixel \<Rightarrow> PNG option" where
  "setPixelAt img x y c =
     (if inside img x y then Some (img\<lparr>pixels := (pixels img)((x, y) := c)\<rparr>) else None)"

definition PNG_sized :: "(int \<times> int \<Rightarrow> RGBAPixel) \<Rightarrow> int \<Rightarrow> int \<Rightarrow> PNG" where
  "PNG_sized init w h = \<lparr>width = w, height = h, pixels = init\<rparr>"

section \<open>The tree (quadtree.h)\<close>

text \<open>
  A QuadtreeNode holds four child pointers and a pixel. A pointer is \<open>None\<close> (NULL) or
  \<open>Some\<close> node; every node is owned by exactly one parent, so the tree is a value.
  Dereferencing NULL is the result \<open>None\<close> of the operation that does it.
  C++ \<open>int\<close> is \<open>int\<close> here: coordinates, resolutions, tolerances and leaf counts
  are taken below \<open>2^31\<close>, where no arithmetic of the code overflows. C++ \<open>/\<close>
  truncates towards zero: it is \<open>sdiv\<close>.
\<close>

datatype QuadtreeNode = QuadtreeNode
  (nwChild: "QuadtreeNode option")
  (neChild: "QuadtreeNode option")
  (swChild: "QuadtreeNode option")
  (seChild: "QuadtreeNode option")
  (element: RGBAPixel)

record Quadtree =
  root :: "QuadtreeNode option"
  res :: int

definition MIN_TOLERANCE :: int where
  "MIN_TOLERANCE = 0"

definition MAX_TOLERANCE :: int where
  "MAX_TOLERANCE = 3 * (255 * 255)"

text \<open>\<open>Quadtree::Quadtree()\<close>\<close>

definition Quadtree_empty :: Quadtree where
  "Quadtree_empty = \<lparr>root = None, res = 0\<rparr>"

text \<open>\<open>QuadtreeNode::QuadtreeNode(RGBAPixel const& elem)\<close> and \<open>QuadtreeNode()\<close>,
  whose element is the default-constructed pixel.\<close>

definition QuadtreeNode_elem :: "RGBAPixel \<Rightarrow> QuadtreeNode" where
  "QuadtreeNode_elem elem = QuadtreeNode None None None None elem"

definition QuadtreeNode_new :: "RGBAPixel \<Rightarrow> QuadtreeNode" where
  "QuadtreeNode_new dflt = QuadtreeNode None None None None dflt"

text \<open>\<open>deleteQuadtree(QuadtreeNode*& node)\<close> frees the subtree and sets the pointer to
  NULL; \<open>deleteQuadtree()\<close> does so for the root.\<close>

definition deleteQuadtree_node :: "QuadtreeNode option \<Rightarrow> QuadtreeNode option" where
  "deleteQuadtree_node node = None"

definition deleteQuadtree :: "Quadtree \<Rightarrow> Quadtree" where
  "deleteQuadtree t = (if root t \<noteq> None then t\<lparr>root := deleteQuadtree_node (root t)\<rparr> else t)"

text \<open>\<open>copyQuadtree(QuadtreeNode*& myNode, QuadtreeNode* const& otherNode)\<close>: the result
  is the new value of \<open>myNode\<close>, which stays as it is when \<open>otherNode\<close> is NULL.\<close>

fun copyQuadtree_node :: "QuadtreeNode option \<Rightarrow> QuadtreeNode option \<Rightarrow> QuadtreeNode option" where
  "copyQuadtree_node myNode None = myNode"
| "copyQuadtree_node myNode (Some (QuadtreeNode nw ne sw se e)) =
     Some (QuadtreeNode
       (copyQuadtree_node (nwChild (QuadtreeNode_elem e)) nw)
       (copyQuadtree_node (neChild (QuadtreeNode_elem e)) ne)
       (copyQuadtree_node (swChild (QuadtreeNode_elem e)) sw)
       (copyQuadtree_node (seChild (QuadtreeNode_elem e)) se)
       e)"

definition copyQuadtree :: "Quadtree \<Rightarrow> Quadtree \<Rightarrow> Quadtree" where
  "copyQuadtree this other =
     (let t = deleteQuadtree this;
          t = t\<lparr>res := res other\<rparr>
      in t\<lparr>root := copyQuadtree_node (root t) (root other)\<rparr>)"

text \<open>The copy constructor starts from a NULL root; \<open>operator=\<close> copies over the
  current tree.\<close>

definition Quadtree_copy :: "Quadtree \<Rightarrow> Quadtree" where
  "Quadtree_copy other = copyQuadtree (Quadtree_empty\<lparr>root := None\<rparr>) other"

definition assign :: "Quadtree \<Rightarrow> Quadtree \<Rightarrow> Quadtree" where
  "assign this other = copyQuadtree this other"

text \<open>\<open>operator=\<close> with the tree itself as \<open>other\<close>: the two are one object, so
  after \<open>deleteQuadtree()\<close> the root that is copied from is NULL as well.\<close>

definition assign_self :: "Quadtree \<Rightarrow> Quadtree" where
  "assign_self this =
     (let t = deleteQuadtree this;
          t = t\<lparr>res := res t\<rparr>
      in t\<lparr>root := copyQuadtree_node (root t) (root t)\<rparr>)"

subsection \<open>Construction\<close>

definition getAvg :: "8 word \<Rightarrow> 8 word \<Rightarrow> 8 word \<Rightarrow> 8 word \<Rightarrow> 8 word" where
  "getAvg n1 n2 n3 n4 = word_of_int ((uint n1 + uint n2 + uint n3 + uint n4) sdiv 4)"

definition getAvgPixelOfChildren :: "QuadtreeNode \<Rightarrow> QuadtreeNode option" where
  "getAvgPixelOfChildren node =
     do {
       nw \<leftarrow> nwChild node;
       ne \<leftarrow> neChild node;
       sw \<leftarrow> swChild node;
       se \<leftarrow> seChild node;
       let nwElem = element nw;
       let neElem = element ne;
       let swElem = element sw;
       let seElem = element se;
       Some (QuadtreeNode (nwChild node) (neChild node) (swChild node) (seChild node)
         ((element node)\<lparr>
            red := getAvg (red nwElem) (red neElem) (red swElem) (red seElem),
            green := getAvg (green nwElem) (green neElem) (green swElem) (green seElem),
            blue := getAvg (blue nwElem) (blue neElem) (blue swElem) (blue seElem),
            alpha := getAvg (alpha nwElem) (alpha neElem) (alpha swElem) (alpha seElem)\<rparr>))
     }"

text \<open>The private \<open>buildTree\<close>. The recursion halves the resolution until it is 1; from
  a resolution below 1 it never gets there, and the result is \<open>None\<close>.\<close>

partial_function (option) buildTree_node ::
  "RGBAPixel \<Rightarrow> PNG \<Rightarrow> int \<Rightarrow> int \<Rightarrow> int \<Rightarrow> QuadtreeNode option" where
  "buildTree_node dflt source resolution x y =
     (if resolution = 1 then
        do {
          pixel \<leftarrow> pixelAt source x y;
          Some (QuadtreeNode_elem pixel)
        }
      else
        let childResolution = resolution sdiv 2 in
        do {
          nw \<leftarrow> buildTree_node dflt source childResolution x y;
          ne \<leftarrow> buildTree_node dflt source childResolution (x + childResolution) y;
          sw \<leftarrow> buildTree_node dflt source childResolution x (y + childResolution);
          se \<leftarrow> buildTree_node dflt source childResolution (x + childResolution) (y + childResolution);
          getAvgPixelOfChildren
            (QuadtreeNode (Some nw) (Some ne) (Some sw) (Some se) (element (QuadtreeNode_new dflt)))
        })"

definition buildTree :: "RGBAPixel \<Rightarrow> Quadtree \<Rightarrow> PNG \<Rightarrow> int \<Rightarrow> Quadtree option" where
  "buildTree dflt this source resolution =
     (let t = deleteQuadtree this;
          t = t\<lparr>res := resolution\<rparr>
      in do {
        node \<leftarrow> buildTree_node dflt source resolution 0 0;
        Some (t\<lparr>root := Some node\<rparr>)
      })"

text \<open>\<open>Quadtree::Quadtree(PNG const& source, int resolution)\<close>\<close>

definition Quadtree_build :: "RGBAPixel \<Rightarrow> PNG \<Rightarrow> int \<Rightarrow> Quadtree option" where
  "Quadtree_build dflt source resolution =
     buildTree dflt (Quadtree_empty\<lparr>root := None\<rparr>) source resolution"

subsection \<open>Pixel query\<close>

definition hasChildren :: "QuadtreeNode \<Rightarrow> bool" where
  "hasChildren node = (nwChild node \<noteq> None)"

definition outOfBound :: "Quadtree \<Rightarrow> int \<Rightarrow> int \<Rightarrow> bool" where
  "outOfBound t x y = (x < 0 \<or> y < 0 \<or> x \<ge> res t \<or> y \<ge> res t)"

fun getPixel_node :: "int \<Rightarrow> int \<Rightarrow> QuadtreeNode \<Rightarrow> int \<Rightarrow> RGBAPixel option" where
  "getPixel_node x y (QuadtreeNode nw ne sw se e) resolution =
     (if \<not> hasChildren (QuadtreeNode nw ne sw se e) then Some e
      else
        let r = resolution sdiv 2 in
        if x < r \<and> y < r then do { c \<leftarrow> nw; getPixel_node x y c r }
        else if x < r \<and> y \<ge> r then do { c \<leftarrow> sw; getPixel_node x y c r }
        else if x \<ge> r \<and> y < r then do { c \<leftarrow> ne; getPixel_node x y c r }
        else do { c \<leftarrow> se; getPixel_node x y c r })"

definition getPixel :: "RGBAPixel \<Rightarrow> Quadtree \<Rightarrow> int \<Rightarrow> int \<Rightarrow> RGBAPixel option" where
  "getPixel dflt t x y =
     (if outOfBound t x y \<or> root t = None then Some dflt
      else do { node \<leftarrow> root t; getPixel_node x y node (res t) })"

subsection \<open>Decompression\<close>

text \<open>The two loops of \<open>transform\<close> at a leaf: \<open>j\<close> runs inside \<open>i\<close>.\<close>

function transform_inner ::
  "PNG \<Rightarrow> int \<Rightarrow> int \<Rightarrow> int \<Rightarrow> int \<Rightarrow> int \<Rightarrow> RGBAPixel \<Rightarrow> PNG option" where
  "transform_inner source resolution x y i j newPixel =
     (if j < resolution then
        do {
          source' \<leftarrow> setPixelAt source (x + i) (y + j) newPixel;
          transform_inner source' resolution x y i (j + 1) newPixel
        }
      else Some source)"
  by pat_completeness auto
termination
  by (relation "measure (\<lambda>(source, resolution, x, y, i, j, newPixel). nat (resolution - j))") auto

function transform_outer ::
  "PNG \<Rightarrow> int \<Rightarrow> int \<Rightarrow> int \<Rightarrow> int \<Rightarrow> RGBAPixel \<Rightarrow> PNG option" where
  "transform_outer source resolution x y i newPixel =
     (if i < resolution then
        do {
          source' \<leftarrow> transform_inner source resolution x y i 0 newPixel;
          transform_outer source' resolution x y (i + 1) newPixel
        }
      else Some source)"
  by pat_completeness auto
termination
  by (relation "measure (\<lambda>(source, resolution, x, y, i, newPixel). nat (resolution - i))") auto

fun transform :: "PNG \<Rightarrow> int \<Rightarrow> int \<Rightarrow> int \<Rightarrow> QuadtreeNode \<Rightarrow> PNG option" where
  "transform source resolution x y (QuadtreeNode nw ne sw se e) =
     (if \<not> hasChildren (QuadtreeNode nw ne sw se e) then
        let newPixel = e in transform_outer source resolution x y 0 newPixel
      else
        let childResolution = resolution sdiv 2 in
        do {
          c1 \<leftarrow> nw;
          source1 \<leftarrow> transform source childResolution x y c1;
          c2 \<leftarrow> ne;
          source2 \<leftarrow> transform source1 childResolution (x + childResolution) y c2;
          c3 \<leftarrow> sw;
          source3 \<leftarrow> transform source2 childResolution x (y + childResolution) c3;
          c4 \<leftarrow> se;
          transform source3 childResolution (x + childResolution) (y + childResolution) c4
        })"

definition decompress :: "PNG \<Rightarrow> (int \<times> int \<Rightarrow> RGBAPixel) \<Rightarrow> Quadtree \<Rightarrow> PNG option" where
  "decompress emptyPNG init t =
     (case root t of
        None \<Rightarrow> Some emptyPNG
      | Some node \<Rightarrow> transform (PNG_sized init (res t) (res t)) (res t) 0 0 node)"

subsection \<open>Rotation\<close>

fun clockwiseRotate_node :: "QuadtreeNode \<Rightarrow> QuadtreeNode option" where
  "clockwiseRotate_node (QuadtreeNode nw ne sw se e) =
     (if hasChildren (QuadtreeNode nw ne sw se e) then
        let tempNode = nw;
            nw1 = sw;
            sw1 = se;
            se1 = ne;
            ne1 = tempNode
        in do {
          c1 \<leftarrow> nw1;
          nw2 \<leftarrow> clockwiseRotate_node c1;
          c2 \<leftarrow> sw1;
          sw2 \<leftarrow> clockwiseRotate_node c2;
          c3 \<leftarrow> se1;
          se2 \<leftarrow> clockwiseRotate_node c3;
          c4 \<leftarrow> ne1;
          ne2 \<leftarrow> clockwiseRotate_node c4;
          Some (QuadtreeNode (Some nw2) (Some ne2) (Some sw2) (Some se2) e)
        }
      else Some (QuadtreeNode nw ne sw se e))"

definition clockwiseRotate :: "Quadtree \<Rightarrow> Quadtree option" where
  "clockwiseRotate t =
     (case root t of
        None \<Rightarrow> Some t
      | Some node \<Rightarrow> do { node' \<leftarrow> clockwiseRotate_node node; Some (t\<lparr>root := Some node'\<rparr>) })"

subsection \<open>Pruning\<close>

definition square :: "int \<Rightarrow> int" where
  "square n = n * n"

definition isPrunable :: "int \<Rightarrow> RGBAPixel \<Rightarrow> RGBAPixel \<Rightarrow> bool" where
  "isPrunable tolerance avgPixel nodePixel =
     (let diff = square (uint (red avgPixel) - uint (red nodePixel)) +
                 square (uint (green avgPixel) - uint (green nodePixel)) +
                 square (uint (blue avgPixel) - uint (blue nodePixel))
      in diff \<le> tolerance)"

fun isChildrenPrunable :: "int \<Rightarrow> QuadtreeNode \<Rightarrow> QuadtreeNode \<Rightarrow> bool option" where
  "isChildrenPrunable tolerance rootNode (QuadtreeNode nw ne sw se e) =
     (if \<not> hasChildren (QuadtreeNode nw ne sw se e) then
        Some (isPrunable tolerance (element rootNode) e)
      else
        do {
          c1 \<leftarrow> nw;
          p1 \<leftarrow> isChildrenPrunable tolerance rootNode c1;
          c2 \<leftarrow> ne;
          p2 \<leftarrow> isChildrenPrunable tolerance rootNode c2;
          c3 \<leftarrow> sw;
          p3 \<leftarrow> isChildrenPrunable tolerance rootNode c3;
          c4 \<leftarrow> se;
          p4 \<leftarrow> isChildrenPrunable tolerance rootNode c4;
          Some (p1 \<and> p2 \<and> p3 \<and> p4)
        })"

definition pruneChildren :: "QuadtreeNode \<Rightarrow> QuadtreeNode" where
  "pruneChildren node =
     QuadtreeNode
       (deleteQuadtree_node (nwChild node))
       (deleteQuadtree_node (neChild node))
       (deleteQuadtree_node (swChild node))
       (deleteQuadtree_node (seChild node))
       (element node)"

fun prune_node :: "int \<Rightarrow> QuadtreeNode \<Rightarrow> QuadtreeNode option" where
  "prune_node tolerance (QuadtreeNode nw ne sw se e) =
     (if \<not> hasChildren (QuadtreeNode nw ne sw se e) then Some (QuadtreeNode nw ne sw se e)
      else
        do {
          p \<leftarrow> isChildrenPrunable tolerance (QuadtreeNode nw ne sw se e) (QuadtreeNode nw ne sw se e);
          if p then Some (pruneChildren (QuadtreeNode nw ne sw se e))
          else
            do {
              c1 \<leftarrow> nw;
              nw' \<leftarrow> prune_node tolerance c1;
              c2 \<leftarrow> ne;
              ne' \<leftarrow> prune_node tolerance c2;
              c3 \<leftarrow> sw;
              sw' \<leftarrow> prune_node tolerance c3;
              c4 \<leftarrow> se;
              se' \<leftarrow> prune_node tolerance c4;
              Some (QuadtreeNode (Some nw') (Some ne') (Some sw') (Some se') e)
            }
        })"

definition prune :: "Quadtree \<Rightarrow> int \<Rightarrow> Quadtree option" where
  "prune t tolerance =
     (case root t of
        None \<Rightarrow> Some t
      | Some node \<Rightarrow> do { node' \<leftarrow> prune_node tolerance node; Some (t\<lparr>root := Some node'\<rparr>) })"

fun pruneSize_node :: "int \<Rightarrow> QuadtreeNode \<Rightarrow> int option" where
  "pruneSize_node tolerance (QuadtreeNode nw ne sw se e) =
     (if \<not> hasChildren (QuadtreeNode nw ne sw se e) then Some 1
      else
        do {
          p \<leftarrow> isChildrenPrunable tolerance (QuadtreeNode nw ne sw se e) (QuadtreeNode nw ne sw se e);
          if p then Some 1
          else
            do {
              c1 \<leftarrow> nw;
              n1 \<leftarrow> pruneSize_node tolerance c1;
              c2 \<leftarrow> ne;
              n2 \<leftarrow> pruneSize_node tolerance c2;
              c3 \<leftarrow> sw;
              n3 \<leftarrow> pruneSize_node tolerance c3;
              c4 \<leftarrow> se;
              n4 \<leftarrow> pruneSize_node tolerance c4;
              Some (n1 + n2 + n3 + n4)
            }
        })"

definition pruneSize :: "Quadtree \<Rightarrow> int \<Rightarrow> int option" where
  "pruneSize t tolerance =
     (case root t of
        None \<Rightarrow> Some 0
      | Some node \<Rightarrow> pruneSize_node tolerance node)"

text \<open>\<open>searchTolerance\<close> calls itself until a probe succeeds; when it never returns,
  the result is \<open>None\<close>.\<close>

partial_function (option) searchTolerance ::
  "Quadtree \<Rightarrow> int \<Rightarrow> int \<Rightarrow> int \<Rightarrow> int option" where
  "searchTolerance t numLeaves minTolerance maxTolerance =
     (let tryTolerance = (minTolerance + maxTolerance) sdiv 2 in
      do {
        numLeavesAfterTry \<leftarrow> pruneSize t tryTolerance;
        if numLeavesAfterTry \<le> numLeaves then
          do {
            numLeavesBelow \<leftarrow> pruneSize t (tryTolerance - 1);
            if numLeavesBelow > numLeaves then Some tryTolerance
            else searchTolerance t numLeaves minTolerance tryTolerance
          }
        else searchTolerance t numLeaves tryTolerance maxTolerance
      })"

definition idealPrune :: "Quadtree \<Rightarrow> int \<Rightarrow> int option" where
  "idealPrune t numLeaves =
     (if root t = None then Some 0
      else searchTolerance t numLeaves MIN_TOLERANCE MAX_TOLERANCE)"

subsection \<open>Observations used to state the properties\<close>

text \<open>The structural invariant of the spec: a node has no child or four children, and so
  has every node below it. An empty tree has no node.\<close>

fun zeroOrFour :: "QuadtreeNode \<Rightarrow> bool" where
  "zeroOrFour (QuadtreeNode None None None None e) = True"
| "zeroOrFour (QuadtreeNode (Some a) (Some b) (Some c) (Some d) e) =
     (zeroOrFour a \<and> zeroOrFour b \<and> zeroOrFour c \<and> zeroOrFour d)"
| "zeroOrFour (QuadtreeNode nw ne sw se e) = False"

definition invariant :: "Quadtree \<Rightarrow> bool" where
  "invariant t = (case root t of None \<Rightarrow> True | Some node \<Rightarrow> zeroOrFour node)"

text \<open>The count of actual leaves (nodes without any child) of a tree, as a traversal that
  skips NULL pointers would find it.\<close>

fun countLeaves_node :: "QuadtreeNode \<Rightarrow> int" where
  "countLeaves_node (QuadtreeNode nw ne sw se e) =
     (if nw = None \<and> ne = None \<and> sw = None \<and> se = None then 1
      else (case nw of None \<Rightarrow> 0 | Some c \<Rightarrow> countLeaves_node c) +
           (case ne of None \<Rightarrow> 0 | Some c \<Rightarrow> countLeaves_node c) +
           (case sw of None \<Rightarrow> 0 | Some c \<Rightarrow> countLeaves_node c) +
           (case se of None \<Rightarrow> 0 | Some c \<Rightarrow> countLeaves_node c))"

definition countLeaves :: "Quadtree \<Rightarrow> int" where
  "countLeaves t = (case root t of None \<Rightarrow> 0 | Some node \<Rightarrow> countLeaves_node node)"

subsection \<open>Example inputs\<close>

text \<open>Small bitmaps and the trees built from them, for the concrete instances below. A
  gray pixel has the same value in its three color channels and is opaque.\<close>

definition gray :: "8 word \<Rightarrow> RGBAPixel" where
  "gray v = \<lparr>red = v, green = v, blue = v, alpha = 255\<rparr>"

definition img1 :: PNG where
  "img1 = \<lparr>width = 1, height = 1, pixels = (\<lambda>p. gray 0)\<rparr>"

definition img2 :: PNG where
  "img2 = \<lparr>width = 2, height = 2, pixels = (\<lambda>(x, y). gray (word_of_int (10 * x + 20 * y)))\<rparr>"

definition img4 :: PNG where
  "img4 = \<lparr>width = 4, height = 4, pixels = (\<lambda>(x, y). gray (word_of_int x))\<rparr>"

definition img4b :: PNG where
  "img4b = img4\<lparr>pixels := (pixels img4)((3, 3) := gray 99)\<rparr>"

definition img16 :: PNG where
  "img16 = \<lparr>width = 16, height = 16,
             pixels = (\<lambda>p. if p = (0, 0) then gray 255 else gray 0)\<rparr>"

definition tree1 :: Quadtree where
  "tree1 = \<lparr>root = Some (QuadtreeNode_elem (gray 0)), res = 1\<rparr>"

definition tree2 :: Quadtree where
  "tree2 = \<lparr>root = Some (QuadtreeNode
               (Some (QuadtreeNode_elem (gray 0))) (Some (QuadtreeNode_elem (gray 10)))
               (Some (QuadtreeNode_elem (gray 20))) (Some (QuadtreeNode_elem (gray 30)))
               (gray 15)),
             res = 2\<rparr>"

section \<open>Basic facts\<close>

lemma hasChildren_Node: "hasChildren (QuadtreeNode nw ne sw se e) = (nw \<noteq> None)"
  by (simp add: hasChildren_def)

declare hasChildren_Node [simp]
declare transform_inner.simps [simp del] transform_outer.simps [simp del]

lemma sdiv_double: "0 < h \<Longrightarrow> (2 * h) sdiv 2 = (h::int)"
  by (simp add: signed_divide_int_def)

lemma build1: "Quadtree_build dflt img1 1 = Some tree1"
  by (subst Quadtree_build_def, subst buildTree_def, subst buildTree_node.simps)
     (simp add: pixelAt_def inside_def img1_def deleteQuadtree_def Quadtree_empty_def tree1_def)

lemma build2: "Quadtree_build dflt img2 2 = Some tree2"
  by (simp add: Quadtree_build_def buildTree_def buildTree_node.simps pixelAt_def inside_def
      img2_def deleteQuadtree_def Quadtree_empty_def tree2_def Let_def getAvgPixelOfChildren_def
      getAvg_def gray_def QuadtreeNode_elem_def QuadtreeNode_new_def)

lemma invariant_tree1: "invariant tree1"
  by (simp add: invariant_def tree1_def QuadtreeNode_elem_def)

lemma invariant_tree2: "invariant tree2"
  by (simp add: invariant_def tree2_def QuadtreeNode_elem_def)

section \<open>Rotation\<close>

lemma clockwiseRotate_node_four:
  "clockwiseRotate_node (QuadtreeNode (Some a) (Some b) (Some c) (Some d) e) =
     do { c' \<leftarrow> clockwiseRotate_node c; d' \<leftarrow> clockwiseRotate_node d;
          b' \<leftarrow> clockwiseRotate_node b; a' \<leftarrow> clockwiseRotate_node a;
          Some (QuadtreeNode (Some c') (Some a') (Some d') (Some b') e) }"
  by simp

lemma clockwiseRotate_node_zeroOrFour:
  "zeroOrFour n \<Longrightarrow> \<exists>n'. clockwiseRotate_node n = Some n' \<and> zeroOrFour n'"
  by (induction n rule: zeroOrFour.induct) auto

text \<open>Four quarter turns of a node bring every subtree back to its place.\<close>

lemma clockwiseRotate_node_four_times:
  "zeroOrFour n \<Longrightarrow>
   \<exists>n1 n2 n3. clockwiseRotate_node n = Some n1 \<and> clockwiseRotate_node n1 = Some n2 \<and>
     clockwiseRotate_node n2 = Some n3 \<and> clockwiseRotate_node n3 = Some n"
proof (induction n rule: zeroOrFour.induct)
  case (1 e)
  show ?case by simp
next
  case (2 a b c d e)
  from 2 obtain a1 a2 a3 where a:
    "clockwiseRotate_node a = Some a1" "clockwiseRotate_node a1 = Some a2"
    "clockwiseRotate_node a2 = Some a3" "clockwiseRotate_node a3 = Some a" by auto
  from 2 obtain b1 b2 b3 where b:
    "clockwiseRotate_node b = Some b1" "clockwiseRotate_node b1 = Some b2"
    "clockwiseRotate_node b2 = Some b3" "clockwiseRotate_node b3 = Some b" by auto
  from 2 obtain c1 c2 c3 where c:
    "clockwiseRotate_node c = Some c1" "clockwiseRotate_node c1 = Some c2"
    "clockwiseRotate_node c2 = Some c3" "clockwiseRotate_node c3 = Some c" by auto
  from 2 obtain d1 d2 d3 where d:
    "clockwiseRotate_node d = Some d1" "clockwiseRotate_node d1 = Some d2"
    "clockwiseRotate_node d2 = Some d3" "clockwiseRotate_node d3 = Some d" by auto
  show ?case
    by (simp add: a b c d)
qed simp_all

text \<open>
  C8. On a tree whose nodes have no or four children (every tree the public operations
  produce), four consecutive calls of \<open>clockwiseRotate()\<close> all complete, and on the
  tree they leave \<open>getPixel(x, y)\<close> returns what it returned on the original tree,
  for every coordinate.
\<close>

theorem clockwiseRotate_four_times:
  assumes "invariant t"
  shows "\<exists>t1 t2 t3 t4. clockwiseRotate t = Some t1 \<and> clockwiseRotate t1 = Some t2 \<and>
     clockwiseRotate t2 = Some t3 \<and> clockwiseRotate t3 = Some t4 \<and>
     getPixel dflt t4 x y = getPixel dflt t x y"
proof (cases "root t")
  case None
  then show ?thesis by (simp add: clockwiseRotate_def)
next
  case (Some n)
  with assms have "zeroOrFour n" by (simp add: invariant_def)
  from clockwiseRotate_node_four_times [OF this] obtain n1 n2 n3 where
    r: "clockwiseRotate_node n = Some n1" "clockwiseRotate_node n1 = Some n2"
       "clockwiseRotate_node n2 = Some n3" "clockwiseRotate_node n3 = Some n" by blast
  have 1: "clockwiseRotate t = Some (t\<lparr>root := Some n1\<rparr>)"
    using Some r by (simp add: clockwiseRotate_def)
  have 2: "clockwiseRotate (t\<lparr>root := Some n1\<rparr>) = Some (t\<lparr>root := Some n2\<rparr>)"
    using r by (simp add: clockwiseRotate_def)
  have 3: "clockwiseRotate (t\<lparr>root := Some n2\<rparr>) = Some (t\<lparr>root := Some n3\<rparr>)"
    using r by (simp add: clockwiseRotate_def)
  have 4: "clockwiseRotate (t\<lparr>root := Some n3\<rparr>) = Some (t\<lparr>root := Some n\<rparr>)"
    using r by (simp add: clockwiseRotate_def)
  have 5: "t\<lparr>root := Some n\<rparr> = t" using Some by simp
  show ?thesis using 1 2 3 4 5 by simp
qed

theorem clockwiseRotate_four_times_witness:
  "invariant tree2 \<and>
   (\<exists>t1 t2 t3 t4. clockwiseRotate tree2 = Some t1 \<and> clockwiseRotate t1 = Some t2 \<and>
     clockwiseRotate t2 = Some t3 \<and> clockwiseRotate t3 = Some t4 \<and>
     getPixel (gray 255) t4 1 0 = getPixel (gray 255) tree2 1 0) \<and>
   getPixel (gray 255) tree2 1 0 = Some (gray 10)"
proof -
  have "getPixel (gray 255) tree2 1 0 = Some (gray 10)"
    by (simp add: getPixel_def outOfBound_def tree2_def QuadtreeNode_elem_def)
  then show ?thesis
    using invariant_tree2 clockwiseRotate_four_times [OF invariant_tree2, of "gray 255" 1 0]
    by simp
qed

section \<open>Pruning\<close>

lemma isChildrenPrunable_four:
  "isChildrenPrunable tol r (QuadtreeNode (Some a) (Some b) (Some c) (Some d) e) =
     do { p1 \<leftarrow> isChildrenPrunable tol r a; p2 \<leftarrow> isChildrenPrunable tol r b;
          p3 \<leftarrow> isChildrenPrunable tol r c; p4 \<leftarrow> isChildrenPrunable tol r d;
          Some (p1 \<and> p2 \<and> p3 \<and> p4) }"
  by simp

lemma pruneSize_node_four:
  "pruneSize_node tol (QuadtreeNode (Some a) (Some b) (Some c) (Some d) e) =
     do { p \<leftarrow> isChildrenPrunable tol (QuadtreeNode (Some a) (Some b) (Some c) (Some d) e)
                 (QuadtreeNode (Some a) (Some b) (Some c) (Some d) e);
          if p then Some 1
          else do { n1 \<leftarrow> pruneSize_node tol a; n2 \<leftarrow> pruneSize_node tol b;
                    n3 \<leftarrow> pruneSize_node tol c; n4 \<leftarrow> pruneSize_node tol d;
                    Some (n1 + n2 + n3 + n4) } }"
  by (simp del: isChildrenPrunable.simps cong: if_cong)

lemma prune_node_four:
  "prune_node tol (QuadtreeNode (Some a) (Some b) (Some c) (Some d) e) =
     do { p \<leftarrow> isChildrenPrunable tol (QuadtreeNode (Some a) (Some b) (Some c) (Some d) e)
                 (QuadtreeNode (Some a) (Some b) (Some c) (Some d) e);
          if p then Some (QuadtreeNode None None None None e)
          else do { a' \<leftarrow> prune_node tol a; b' \<leftarrow> prune_node tol b;
                    c' \<leftarrow> prune_node tol c; d' \<leftarrow> prune_node tol d;
                    Some (QuadtreeNode (Some a') (Some b') (Some c') (Some d') e) } }"
  by (simp add: pruneChildren_def deleteQuadtree_node_def del: isChildrenPrunable.simps
      cong: if_cong)

text \<open>On a tree with the invariant the prunability test dereferences no NULL pointer.\<close>

lemma isChildrenPrunable_total:
  "zeroOrFour n \<Longrightarrow> \<exists>p. isChildrenPrunable tol r n = Some p"
  by (induction n rule: zeroOrFour.induct) auto

lemma isPrunable_mono: "t1 \<le> t2 \<Longrightarrow> isPrunable t1 a b \<Longrightarrow> isPrunable t2 a b"
  by (simp add: isPrunable_def Let_def)

lemma isChildrenPrunable_mono:
  "zeroOrFour n \<Longrightarrow> t1 \<le> t2 \<Longrightarrow> isChildrenPrunable t1 r n = Some True \<Longrightarrow>
   isChildrenPrunable t2 r n = Some True"
proof (induction n rule: zeroOrFour.induct)
  case (1 e)
  then show ?case by (simp add: isPrunable_mono)
next
  case (2 a b c d e)
  from 2 obtain pa pb pc pd where p:
    "isChildrenPrunable t1 r a = Some pa" "isChildrenPrunable t1 r b = Some pb"
    "isChildrenPrunable t1 r c = Some pc" "isChildrenPrunable t1 r d = Some pd"
    using isChildrenPrunable_total [of _ t1 r] by (metis zeroOrFour.simps(2))
  from "2.prems"(3) have "pa \<and> pb \<and> pc \<and> pd"
    by (simp only: isChildrenPrunable_four p) simp
  with 2 p have "isChildrenPrunable t2 r a = Some True" "isChildrenPrunable t2 r b = Some True"
    "isChildrenPrunable t2 r c = Some True" "isChildrenPrunable t2 r d = Some True"
    by simp_all
  then show ?case
    by (simp only: isChildrenPrunable_four) simp
qed simp_all

text \<open>Every node counts for at least one leaf.\<close>

lemma pruneSize_node_pos:
  "zeroOrFour n \<Longrightarrow> \<exists>k. pruneSize_node tol n = Some k \<and> 1 \<le> k"
proof (induction n rule: zeroOrFour.induct)
  case (1 e)
  show ?case by simp
next
  case (2 a b c d e)
  let ?N = "QuadtreeNode (Some a) (Some b) (Some c) (Some d) e"
  from 2 have "zeroOrFour ?N" by simp
  then obtain p where p: "isChildrenPrunable tol ?N ?N = Some p"
    using isChildrenPrunable_total by blast
  from 2 obtain ka kb kc kd where k:
    "pruneSize_node tol a = Some ka" "1 \<le> ka" "pruneSize_node tol b = Some kb" "1 \<le> kb"
    "pruneSize_node tol c = Some kc" "1 \<le> kc" "pruneSize_node tol d = Some kd" "1 \<le> kd"
    by auto
  show ?case
    by (simp only: pruneSize_node_four p k) (use k in simp)
qed simp_all

lemma pruneSize_node_mono:
  "zeroOrFour n \<Longrightarrow> t1 \<le> t2 \<Longrightarrow>
   \<exists>a b. pruneSize_node t1 n = Some a \<and> pruneSize_node t2 n = Some b \<and> b \<le> a"
proof (induction n rule: zeroOrFour.induct)
  case (1 e)
  show ?case by simp
next
  case (2 a b c d e)
  let ?N = "QuadtreeNode (Some a) (Some b) (Some c) (Some d) e"
  from 2 have wf: "zeroOrFour ?N" by simp
  obtain p1 where p1: "isChildrenPrunable t1 ?N ?N = Some p1"
    using wf isChildrenPrunable_total by blast
  obtain p2 where p2: "isChildrenPrunable t2 ?N ?N = Some p2"
    using wf isChildrenPrunable_total by blast
  have imp: "p1 \<Longrightarrow> p2"
    using isChildrenPrunable_mono [OF wf \<open>t1 \<le> t2\<close>, of ?N] p1 p2 by simp
  from 2 obtain a1 a2 where a:
    "pruneSize_node t1 a = Some a1" "pruneSize_node t2 a = Some a2" "a2 \<le> a1" by auto
  from 2 obtain b1 b2 where b:
    "pruneSize_node t1 b = Some b1" "pruneSize_node t2 b = Some b2" "b2 \<le> b1" by auto
  from 2 obtain c1 c2 where c:
    "pruneSize_node t1 c = Some c1" "pruneSize_node t2 c = Some c2" "c2 \<le> c1" by auto
  from 2 obtain d1 d2 where d:
    "pruneSize_node t1 d = Some d1" "pruneSize_node t2 d = Some d2" "d2 \<le> d1" by auto
  obtain k1 where k1: "pruneSize_node t1 ?N = Some k1" "1 \<le> k1"
    using pruneSize_node_pos [OF wf] by blast
  show ?case
  proof (cases p2)
    case True
    then have "pruneSize_node t2 ?N = Some 1"
      by (simp only: pruneSize_node_four p2) simp
    with k1 show ?thesis by simp
  next
    case False
    with imp have "\<not> p1" by blast
    have "pruneSize_node t1 ?N = Some (a1 + b1 + c1 + d1)"
      using \<open>\<not> p1\<close> by (simp only: pruneSize_node_four p1 a b c d) simp
    moreover have "pruneSize_node t2 ?N = Some (a2 + b2 + c2 + d2)"
      using False by (simp only: pruneSize_node_four p2 a b c d) simp
    ultimately show ?thesis using a b c d by simp
  qed
qed simp_all

text \<open>
  C5. Monotonicity: on a tree with the invariant, \<open>pruneSize\<close> returns at both
  tolerances, and for \<open>t1 \<le> t2\<close> the count at \<open>t1\<close> is at least the count at
  \<open>t2\<close>.
\<close>

theorem pruneSize_monotone:
  assumes "invariant t" and "t1 \<le> t2"
  shows "\<exists>a b. pruneSize t t1 = Some a \<and> pruneSize t t2 = Some b \<and> a \<ge> b"
proof (cases "root t")
  case None
  then show ?thesis by (simp add: pruneSize_def)
next
  case (Some n)
  with assms have "zeroOrFour n" by (simp add: invariant_def)
  from pruneSize_node_mono [OF this assms(2)] Some show ?thesis
    by (simp add: pruneSize_def)
qed

lemma pruneSize_tree2_674: "pruneSize tree2 674 = Some 4"
  by (simp add: pruneSize_def tree2_def QuadtreeNode_elem_def isPrunable_def square_def gray_def)

lemma pruneSize_tree2_675: "pruneSize tree2 675 = Some 1"
  by (simp add: pruneSize_def tree2_def QuadtreeNode_elem_def isPrunable_def square_def gray_def)

theorem pruneSize_monotone_witness:
  "invariant tree2 \<and> (674::int) \<le> 675 \<and>
   (\<exists>a b. pruneSize tree2 674 = Some a \<and> pruneSize tree2 675 = Some b \<and> a \<ge> b) \<and>
   pruneSize tree2 674 = Some 4 \<and> pruneSize tree2 675 = Some 1"
proof -
  have le: "(674::int) \<le> 675" by simp
  show ?thesis
    using pruneSize_monotone [OF invariant_tree2 le] invariant_tree2
      pruneSize_tree2_674 pruneSize_tree2_675
    by simp
qed

text \<open>Pruning a node and sizing it walk the tree alike: where \<open>prune\<close> cuts,
  \<open>pruneSize\<close> counts one; both test a node before anything below it has changed.\<close>

lemma prune_node_agree:
  "zeroOrFour n \<Longrightarrow>
   \<exists>n'. prune_node tol n = Some n' \<and> zeroOrFour n' \<and>
         pruneSize_node tol n = Some (countLeaves_node n')"
proof (induction n rule: zeroOrFour.induct)
  case (1 e)
  show ?case by simp
next
  case (2 a b c d e)
  let ?N = "QuadtreeNode (Some a) (Some b) (Some c) (Some d) e"
  from 2 have wf: "zeroOrFour ?N" by simp
  obtain p where p: "isChildrenPrunable tol ?N ?N = Some p"
    using wf isChildrenPrunable_total by blast
  from 2 obtain a' where a: "prune_node tol a = Some a'" "zeroOrFour a'"
      "pruneSize_node tol a = Some (countLeaves_node a')" by auto
  from 2 obtain b' where b: "prune_node tol b = Some b'" "zeroOrFour b'"
      "pruneSize_node tol b = Some (countLeaves_node b')" by auto
  from 2 obtain c' where c: "prune_node tol c = Some c'" "zeroOrFour c'"
      "pruneSize_node tol c = Some (countLeaves_node c')" by auto
  from 2 obtain d' where d: "prune_node tol d = Some d'" "zeroOrFour d'"
      "pruneSize_node tol d = Some (countLeaves_node d')" by auto
  show ?case
    by (cases p)
      (simp_all only: prune_node_four pruneSize_node_four p a b c d, simp_all add: a b c d)
qed simp_all

text \<open>
  C6. Agreement of \<open>prune\<close> and \<open>pruneSize\<close>: on a tree with the invariant,
  \<open>prune(t)\<close> completes, and the number of leaves of the tree it leaves is the value
  \<open>pruneSize(t)\<close> returns on the tree before pruning, for every tolerance (also a negative
  one). Since \<open>pruneSize\<close> reads the unpruned tree only, each node's prunability in
  \<open>prune\<close> is the one of the original tree.
\<close>

theorem prune_pruneSize_agree:
  assumes "invariant t"
  shows "\<exists>t'. prune t tolerance = Some t' \<and> pruneSize t tolerance = Some (countLeaves t')"
proof (cases "root t")
  case None
  then show ?thesis by (simp add: prune_def pruneSize_def countLeaves_def)
next
  case (Some n)
  with assms have "zeroOrFour n" by (simp add: invariant_def)
  from prune_node_agree [OF this, of tolerance] Some show ?thesis
    by (auto simp: prune_def pruneSize_def countLeaves_def)
qed

theorem prune_pruneSize_agree_witness:
  "invariant tree2 \<and>
   (\<exists>t'. prune tree2 675 = Some t' \<and> pruneSize tree2 675 = Some (countLeaves t')) \<and>
   (\<exists>t'. prune tree2 674 = Some t' \<and> pruneSize tree2 674 = Some (countLeaves t'))"
  using invariant_tree2 prune_pruneSize_agree [OF invariant_tree2, of 675]
    prune_pruneSize_agree [OF invariant_tree2, of 674]
  by simp

section \<open>Construction and decompression\<close>

text \<open>The inner loop of \<open>transform\<close> paints the rest of one column of the block, the
  outer loop the rest of the block; both stay inside the image.\<close>

lemma transform_inner_column:
  "0 \<le> j \<Longrightarrow> 0 \<le> x + i \<Longrightarrow> x + i < width src \<Longrightarrow> 0 \<le> y \<Longrightarrow> y + r \<le> height src \<Longrightarrow>
   \<exists>src'. transform_inner src r x y i j p = Some src' \<and>
     width src' = width src \<and> height src' = height src \<and>
     (\<forall>a b. pixels src' (a, b) =
        (if a = x + i \<and> y + j \<le> b \<and> b < y + r then p else pixels src (a, b)))"
proof (induction src r x y i j p rule: transform_inner.induct)
  case (1 source resolution x y i j newPixel)
  show ?case
  proof (cases "j < resolution")
    case False
    then show ?thesis by (subst transform_inner.simps) auto
  next
    case True
    let ?s = "source\<lparr>pixels := (pixels source)((x + i, y + j) := newPixel)\<rparr>"
    have w: "setPixelAt source (x + i) (y + j) newPixel = Some ?s"
      using 1(2-) True by (simp add: setPixelAt_def inside_def)
    have "\<exists>src'. transform_inner ?s resolution x y i (j + 1) newPixel = Some src' \<and>
       width src' = width ?s \<and> height src' = height ?s \<and>
       (\<forall>a b. pixels src' (a, b) =
          (if a = x + i \<and> y + (j + 1) \<le> b \<and> b < y + resolution then newPixel else pixels ?s (a, b)))"
      using 1(2-) by (intro "1.IH" [OF True w]) simp_all
    then obtain src' where s: "transform_inner ?s resolution x y i (j + 1) newPixel = Some src'"
       "width src' = width source" "height src' = height source"
       "\<And>a b. pixels src' (a, b) =
          (if a = x + i \<and> y + (j + 1) \<le> b \<and> b < y + resolution then newPixel else pixels ?s (a, b))"
      by auto
    have "transform_inner source resolution x y i j newPixel = Some src'"
      using True w s(1) by (subst transform_inner.simps) simp
    moreover have "\<forall>a b. pixels src' (a, b) =
        (if a = x + i \<and> y + j \<le> b \<and> b < y + resolution then newPixel else pixels source (a, b))"
      using True by (auto simp: s(4))
    ultimately show ?thesis using s(2,3) by simp
  qed
qed

lemma transform_outer_block:
  "0 \<le> i \<Longrightarrow> 0 \<le> x \<Longrightarrow> x + r \<le> width src \<Longrightarrow> 0 \<le> y \<Longrightarrow> y + r \<le> height src \<Longrightarrow>
   \<exists>src'. transform_outer src r x y i p = Some src' \<and>
     width src' = width src \<and> height src' = height src \<and>
     (\<forall>a b. pixels src' (a, b) =
        (if x + i \<le> a \<and> a < x + r \<and> y \<le> b \<and> b < y + r then p else pixels src (a, b)))"
proof (induction src r x y i p rule: transform_outer.induct)
  case (1 source resolution x y i newPixel)
  show ?case
  proof (cases "i < resolution")
    case False
    then show ?thesis by (subst transform_outer.simps) auto
  next
    case True
    obtain s1 where s1: "transform_inner source resolution x y i 0 newPixel = Some s1"
      "width s1 = width source" "height s1 = height source"
      "\<And>a b. pixels s1 (a, b) =
        (if a = x + i \<and> y + 0 \<le> b \<and> b < y + resolution then newPixel else pixels source (a, b))"
      using transform_inner_column [of 0 x i source y resolution newPixel] 1(2-) True by auto
    have "\<exists>src'. transform_outer s1 resolution x y (i + 1) newPixel = Some src' \<and>
       width src' = width s1 \<and> height src' = height s1 \<and>
       (\<forall>a b. pixels src' (a, b) =
          (if x + (i + 1) \<le> a \<and> a < x + resolution \<and> y \<le> b \<and> b < y + resolution
           then newPixel else pixels s1 (a, b)))"
      using 1(2-) s1(2,3) by (intro "1.IH" [OF True s1(1)]) simp_all
    then obtain src' where s: "transform_outer s1 resolution x y (i + 1) newPixel = Some src'"
       "width src' = width source" "height src' = height source"
       "\<And>a b. pixels src' (a, b) =
          (if x + (i + 1) \<le> a \<and> a < x + resolution \<and> y \<le> b \<and> b < y + resolution
           then newPixel else pixels s1 (a, b))"
      using s1(2,3) by auto
    have "transform_outer source resolution x y i newPixel = Some src'"
      using True s1(1) s(1) by (subst transform_outer.simps) simp
    moreover have "\<forall>a b. pixels src' (a, b) =
        (if x + i \<le> a \<and> a < x + resolution \<and> y \<le> b \<and> b < y + resolution
         then newPixel else pixels source (a, b))"
      using True by (auto simp: s(4) s1(4))
    ultimately show ?thesis using s(2,3) by simp
  qed
qed

lemma getAvgPixelOfChildren_four:
  "\<exists>e'. getAvgPixelOfChildren (QuadtreeNode (Some a) (Some b) (Some c) (Some d) e) =
     Some (QuadtreeNode (Some a) (Some b) (Some c) (Some d) e')"
  by (simp add: getAvgPixelOfChildren_def Let_def)

lemma transform_four:
  "transform img r x y (QuadtreeNode (Some a) (Some b) (Some c) (Some d) e) =
     do { img1 \<leftarrow> transform img (r sdiv 2) x y a;
          img2 \<leftarrow> transform img1 (r sdiv 2) (x + r sdiv 2) y b;
          img3 \<leftarrow> transform img2 (r sdiv 2) x (y + r sdiv 2) c;
          transform img3 (r sdiv 2) (x + r sdiv 2) (y + r sdiv 2) d }"
  by (simp add: Let_def)

lemma transform_leaf:
  "transform img r x y (QuadtreeNode None None None None e) = transform_outer img r x y 0 e"
  by simp

lemma buildTree_node_one:
  "buildTree_node dflt src 1 x y =
     do { pixel \<leftarrow> pixelAt src x y; Some (QuadtreeNode None None None None pixel) }"
  by (subst buildTree_node.simps) (simp add: QuadtreeNode_elem_def)

lemma buildTree_node_double:
  "0 < h \<Longrightarrow> buildTree_node dflt src (2 * h) x y =
     do { nw \<leftarrow> buildTree_node dflt src h x y;
          ne \<leftarrow> buildTree_node dflt src h (x + h) y;
          sw \<leftarrow> buildTree_node dflt src h x (y + h);
          se \<leftarrow> buildTree_node dflt src h (x + h) (y + h);
          getAvgPixelOfChildren (QuadtreeNode (Some nw) (Some ne) (Some sw) (Some se) dflt) }"
  by (subst buildTree_node.simps) (simp add: sdiv_double QuadtreeNode_new_def)



text \<open>Building the block of side \<open>2 ^ k\<close> at \<open>(x, y)\<close> succeeds when the block lies in
  the source, and \<open>transform\<close> of the result paints exactly that block of the source
  into any image that holds the block.\<close>

lemma build_roundtrip:
  "0 \<le> x \<Longrightarrow> 0 \<le> y \<Longrightarrow> x + 2 ^ k \<le> width src \<Longrightarrow> y + 2 ^ k \<le> height src \<Longrightarrow>
   \<exists>t. buildTree_node dflt src (2 ^ k) x y = Some t \<and> zeroOrFour t \<and>
     (\<forall>img. x + 2 ^ k \<le> width img \<longrightarrow> y + 2 ^ k \<le> height img \<longrightarrow>
        (\<exists>img'. transform img (2 ^ k) x y t = Some img' \<and>
           width img' = width img \<and> height img' = height img \<and>
           (\<forall>a b. pixels img' (a, b) =
              (if x \<le> a \<and> a < x + 2 ^ k \<and> y \<le> b \<and> b < y + 2 ^ k
               then pixels src (a, b) else pixels img (a, b)))))"
proof (induction k arbitrary: x y)
  case 0
  let ?t = "QuadtreeNode None None None None (pixels src (x, y))"
  have b: "buildTree_node dflt src (2 ^ 0) x y = Some ?t"
    using 0 by (simp add: buildTree_node_one pixelAt_def inside_def)
  have "\<exists>img'. transform img (2 ^ 0) x y ?t = Some img' \<and>
           width img' = width img \<and> height img' = height img \<and>
           (\<forall>a b. pixels img' (a, b) =
              (if x \<le> a \<and> a < x + 2 ^ 0 \<and> y \<le> b \<and> b < y + 2 ^ 0
               then pixels src (a, b) else pixels img (a, b)))"
    if "x + 2 ^ 0 \<le> width img" "y + 2 ^ 0 \<le> height img" for img
  proof -
    from transform_outer_block [of 0 x 1 img y "pixels src (x, y)"] 0 that
    obtain img' where i: "transform_outer img 1 x y 0 (pixels src (x, y)) = Some img'"
      "width img' = width img" "height img' = height img"
      "\<And>a b. pixels img' (a, b) =
        (if x + 0 \<le> a \<and> a < x + 1 \<and> y \<le> b \<and> b < y + 1 then pixels src (x, y) else pixels img (a, b))"
      by auto
    have "\<forall>a b. pixels img' (a, b) =
              (if x \<le> a \<and> a < x + 2 ^ 0 \<and> y \<le> b \<and> b < y + 2 ^ 0
               then pixels src (a, b) else pixels img (a, b))"
      by (auto simp: i(4))
    with i show ?thesis by (simp only: power_0 transform_leaf) simp
  qed
  with b show ?case by (intro exI [of _ ?t]) simp
next
  case (Suc k)
  define h :: int where "h = 2 ^ k"
  have h: "0 < h" and R: "(2::int) ^ Suc k = 2 * h" by (simp_all add: h_def)
  note IH = Suc.IH [folded h_def]
  from Suc.prems have pre: "0 \<le> x" "0 \<le> y" "x + 2 * h \<le> width src" "y + 2 * h \<le> height src"
    by (simp_all add: h_def)
  obtain nw where nw: "buildTree_node dflt src h x y = Some nw" "zeroOrFour nw"
    and Tnw: "\<And>img. x + h \<le> width img \<Longrightarrow> y + h \<le> height img \<Longrightarrow>
        \<exists>img'. transform img h x y nw = Some img' \<and>
           width img' = width img \<and> height img' = height img \<and>
           (\<forall>a b. pixels img' (a, b) =
              (if x \<le> a \<and> a < x + h \<and> y \<le> b \<and> b < y + h
               then pixels src (a, b) else pixels img (a, b)))"
    using IH [of x y] pre h by auto
  obtain ne where ne: "buildTree_node dflt src h (x + h) y = Some ne" "zeroOrFour ne"
    and Tne: "\<And>img. x + h + h \<le> width img \<Longrightarrow> y + h \<le> height img \<Longrightarrow>
        \<exists>img'. transform img h (x + h) y ne = Some img' \<and>
           width img' = width img \<and> height img' = height img \<and>
           (\<forall>a b. pixels img' (a, b) =
              (if x + h \<le> a \<and> a < x + h + h \<and> y \<le> b \<and> b < y + h
               then pixels src (a, b) else pixels img (a, b)))"
    using IH [of "x + h" y] pre h by auto
  obtain sw where sw: "buildTree_node dflt src h x (y + h) = Some sw" "zeroOrFour sw"
    and Tsw: "\<And>img. x + h \<le> width img \<Longrightarrow> y + h + h \<le> height img \<Longrightarrow>
        \<exists>img'. transform img h x (y + h) sw = Some img' \<and>
           width img' = width img \<and> height img' = height img \<and>
           (\<forall>a b. pixels img' (a, b) =
              (if x \<le> a \<and> a < x + h \<and> y + h \<le> b \<and> b < y + h + h
               then pixels src (a, b) else pixels img (a, b)))"
    using IH [of x "y + h"] pre h by auto
  obtain se where se: "buildTree_node dflt src h (x + h) (y + h) = Some se" "zeroOrFour se"
    and Tse: "\<And>img. x + h + h \<le> width img \<Longrightarrow> y + h + h \<le> height img \<Longrightarrow>
        \<exists>img'. transform img h (x + h) (y + h) se = Some img' \<and>
           width img' = width img \<and> height img' = height img \<and>
           (\<forall>a b. pixels img' (a, b) =
              (if x + h \<le> a \<and> a < x + h + h \<and> y + h \<le> b \<and> b < y + h + h
               then pixels src (a, b) else pixels img (a, b)))"
    using IH [of "x + h" "y + h"] pre h by auto
  obtain e' where e': "getAvgPixelOfChildren (QuadtreeNode (Some nw) (Some ne) (Some sw) (Some se) dflt) =
      Some (QuadtreeNode (Some nw) (Some ne) (Some sw) (Some se) e')"
    using getAvgPixelOfChildren_four by blast
  let ?t = "QuadtreeNode (Some nw) (Some ne) (Some sw) (Some se) e'"
  have b: "buildTree_node dflt src (2 ^ Suc k) x y = Some ?t"
    unfolding R by (simp add: buildTree_node_double [OF h] nw ne sw se e')
  have wf: "zeroOrFour ?t" using nw ne sw se by simp
  have "\<exists>img'. transform img (2 ^ Suc k) x y ?t = Some img' \<and>
           width img' = width img \<and> height img' = height img \<and>
           (\<forall>a b. pixels img' (a, b) =
              (if x \<le> a \<and> a < x + 2 ^ Suc k \<and> y \<le> b \<and> b < y + 2 ^ Suc k
               then pixels src (a, b) else pixels img (a, b)))"
    if "x + 2 ^ Suc k \<le> width img" "y + 2 ^ Suc k \<le> height img" for img
  proof -
    from that have d: "x + 2 * h \<le> width img" "y + 2 * h \<le> height img" by (simp_all add: h_def)
    obtain i1 where i1: "transform img h x y nw = Some i1"
      "width i1 = width img" "height i1 = height img"
      "\<And>a b. pixels i1 (a, b) = (if x \<le> a \<and> a < x + h \<and> y \<le> b \<and> b < y + h
               then pixels src (a, b) else pixels img (a, b))"
      using Tnw [of img] d h by auto
    obtain i2 where i2: "transform i1 h (x + h) y ne = Some i2"
      "width i2 = width img" "height i2 = height img"
      "\<And>a b. pixels i2 (a, b) = (if x + h \<le> a \<and> a < x + h + h \<and> y \<le> b \<and> b < y + h
               then pixels src (a, b) else pixels i1 (a, b))"
      using Tne [of i1] d h i1(2,3) by auto
    obtain i3 where i3: "transform i2 h x (y + h) sw = Some i3"
      "width i3 = width img" "height i3 = height img"
      "\<And>a b. pixels i3 (a, b) = (if x \<le> a \<and> a < x + h \<and> y + h \<le> b \<and> b < y + h + h
               then pixels src (a, b) else pixels i2 (a, b))"
      using Tsw [of i2] d h i2(2,3) by auto
    obtain i4 where i4: "transform i3 h (x + h) (y + h) se = Some i4"
      "width i4 = width img" "height i4 = height img"
      "\<And>a b. pixels i4 (a, b) = (if x + h \<le> a \<and> a < x + h + h \<and> y + h \<le> b \<and> b < y + h + h
               then pixels src (a, b) else pixels i3 (a, b))"
      using Tse [of i3] d h i3(2,3) by auto
    have t: "transform img (2 ^ Suc k) x y ?t = Some i4"
      unfolding R by (simp only: transform_four sdiv_double [OF h] i1 i2 i3 i4 bind.simps)
    have "pixels i4 (a, b) =
              (if x \<le> a \<and> a < x + 2 ^ Suc k \<and> y \<le> b \<and> b < y + 2 ^ Suc k
               then pixels src (a, b) else pixels img (a, b))" for a b
      unfolding R i4(4) i3(4) i2(4) i1(4) using h by auto
    with t i4(2,3) show ?thesis by blast
  qed
  with b wf show ?case by blast
qed

lemma buildTree_Some:
  "buildTree_node dflt source resolution 0 0 = Some n \<Longrightarrow>
   buildTree dflt this source resolution = Some \<lparr>root = Some n, res = resolution\<rparr>"
  by (simp add: buildTree_def deleteQuadtree_def deleteQuadtree_node_def Let_def)

text \<open>
  C4. Round trip: when the source holds the block of side \<open>R = 2 ^ k\<close> at its origin,
  \<open>buildTree(source, R)\<close> returns a tree, \<open>decompress()\<close> of that tree returns an
  \<open>R \<times> R\<close> image, and every pixel of the image is the pixel of the source at the same
  place.
\<close>

theorem build_decompress_roundtrip:
  assumes "2 ^ k \<le> width source" and "2 ^ k \<le> height source"
  shows "\<exists>t img. buildTree dflt this source (2 ^ k) = Some t \<and>
     decompress emptyPNG init t = Some img \<and> width img = 2 ^ k \<and> height img = 2 ^ k \<and>
     (\<forall>x y. 0 \<le> x \<and> x < 2 ^ k \<and> 0 \<le> y \<and> y < 2 ^ k \<longrightarrow>
        pixelAt img x y = pixelAt source x y \<and> pixelAt img x y \<noteq> None)"
proof -
  let ?blank = "PNG_sized init (2 ^ k) (2 ^ k)"
  from build_roundtrip [of 0 0 k source dflt] assms
  obtain n where n: "buildTree_node dflt source (2 ^ k) 0 0 = Some n"
    and T: "\<And>img. 0 + 2 ^ k \<le> width img \<Longrightarrow> 0 + 2 ^ k \<le> height img \<Longrightarrow>
        \<exists>img'. transform img (2 ^ k) 0 0 n = Some img' \<and>
           width img' = width img \<and> height img' = height img \<and>
           (\<forall>a b. pixels img' (a, b) =
              (if 0 \<le> a \<and> a < 0 + 2 ^ k \<and> 0 \<le> b \<and> b < 0 + 2 ^ k
               then pixels source (a, b) else pixels img (a, b)))"
    by auto
  from T [of ?blank] obtain img where img: "transform ?blank (2 ^ k) 0 0 n = Some img"
    "width img = 2 ^ k" "height img = 2 ^ k"
    "\<And>a b. pixels img (a, b) =
       (if 0 \<le> a \<and> a < 0 + 2 ^ k \<and> 0 \<le> b \<and> b < 0 + 2 ^ k
        then pixels source (a, b) else pixels ?blank (a, b))"
    by (auto simp: PNG_sized_def)
  let ?t = "\<lparr>root = Some n, res = 2 ^ k\<rparr>"
  have "buildTree dflt this source (2 ^ k) = Some ?t"
    using n by (rule buildTree_Some)
  moreover have "decompress emptyPNG init ?t = Some img"
    using img(1) by (simp add: decompress_def)
  moreover have "pixelAt img x y = pixelAt source x y \<and> pixelAt img x y \<noteq> None"
    if "0 \<le> x \<and> x < 2 ^ k \<and> 0 \<le> y \<and> y < 2 ^ k" for x y
    using that assms img(2,3) by (simp add: pixelAt_def inside_def img(4))
  ultimately show ?thesis using img(2,3) by blast
qed

theorem build_decompress_roundtrip_witness:
  "(2::int) ^ 2 \<le> width img4 \<and> (2::int) ^ 2 \<le> height img4 \<and>
   (\<exists>t img. buildTree (gray 255) Quadtree_empty img4 (2 ^ 2) = Some t \<and>
      decompress img1 (\<lambda>p. gray 255) t = Some img \<and> width img = 2 ^ 2 \<and> height img = 2 ^ 2 \<and>
      pixelAt img 2 0 = Some (gray 2))"
proof -
  have w: "(2::int) ^ 2 \<le> width img4" and h: "(2::int) ^ 2 \<le> height img4"
    by (simp_all add: img4_def)
  have p: "pixelAt img4 2 0 = Some (gray 2)"
    by (simp add: pixelAt_def inside_def img4_def)
  from build_decompress_roundtrip [OF w h, of "gray 255" Quadtree_empty img1 "\<lambda>p. gray 255"]
  obtain t img where "buildTree (gray 255) Quadtree_empty img4 (2 ^ 2) = Some t"
    "decompress img1 (\<lambda>p. gray 255) t = Some img" "width img = 2 ^ 2" "height img = 2 ^ 2"
    "pixelAt img 2 0 = pixelAt img4 2 0"
    by auto
  with w h p show ?thesis by auto
qed

lemma buildTree_node_agree:
  "(\<And>a b. x \<le> a \<Longrightarrow> a < x + 2 ^ k \<Longrightarrow> y \<le> b \<Longrightarrow> b < y + 2 ^ k \<Longrightarrow>
      pixelAt s1 a b = pixelAt s2 a b) \<Longrightarrow>
   buildTree_node dflt s1 (2 ^ k) x y = buildTree_node dflt s2 (2 ^ k) x y"
proof (induction k arbitrary: x y)
  case 0
  have "pixelAt s1 x y = pixelAt s2 x y" by (rule 0) simp_all
  then show ?case by (simp add: buildTree_node_one)
next
  case (Suc k)
  define h :: int where "h = 2 ^ k"
  have h: "0 < h" and R: "(2::int) ^ Suc k = 2 * h" by (simp_all add: h_def)
  note IH = Suc.IH [folded h_def]
  have agree: "pixelAt s1 a b = pixelAt s2 a b"
    if "x \<le> a" "a < x + 2 * h" "y \<le> b" "b < y + 2 * h" for a b
    using Suc.prems [of a b] that by (simp add: h_def)
  have "buildTree_node dflt s1 h x y = buildTree_node dflt s2 h x y"
    using h by (intro IH agree) simp_all
  moreover have "buildTree_node dflt s1 h (x + h) y = buildTree_node dflt s2 h (x + h) y"
    using h by (intro IH agree) simp_all
  moreover have "buildTree_node dflt s1 h x (y + h) = buildTree_node dflt s2 h x (y + h)"
    using h by (intro IH agree) simp_all
  moreover have "buildTree_node dflt s1 h (x + h) (y + h) = buildTree_node dflt s2 h (x + h) (y + h)"
    using h by (intro IH agree) simp_all
  ultimately show ?case
    unfolding R by (simp only: buildTree_node_double [OF h])
qed

text \<open>
  C10. Building reads the target region only: for \<open>R = 2 ^ k\<close>, two sources that give
  the same answer at every \<open>(x, y)\<close> with \<open>0 \<le> x < R\<close> and \<open>0 \<le> y < R\<close> are
  built to the same result, whatever they hold elsewhere.
\<close>

theorem buildTree_reads_region_only:
  assumes "\<forall>x y. 0 \<le> x \<and> x < 2 ^ k \<and> 0 \<le> y \<and> y < 2 ^ k \<longrightarrow> pixelAt s1 x y = pixelAt s2 x y"
  shows "buildTree dflt this s1 (2 ^ k) = buildTree dflt this s2 (2 ^ k) \<and>
    (2 ^ k \<le> width s1 \<and> 2 ^ k \<le> height s1 \<longrightarrow> buildTree dflt this s1 (2 ^ k) \<noteq> None)"
proof -
  have "buildTree_node dflt s1 (2 ^ k) 0 0 = buildTree_node dflt s2 (2 ^ k) 0 0"
    using assms by (intro buildTree_node_agree) simp_all
  then have "buildTree dflt this s1 (2 ^ k) = buildTree dflt this s2 (2 ^ k)"
    by (simp add: buildTree_def)
  moreover have "buildTree dflt this s1 (2 ^ k) \<noteq> None"
    if "2 ^ k \<le> width s1 \<and> 2 ^ k \<le> height s1"
    using build_roundtrip [of 0 0 k s1 dflt] that by (auto dest: buildTree_Some)
  ultimately show ?thesis by blast
qed

theorem buildTree_reads_region_only_witness:
  "pixelAt img4 3 3 \<noteq> pixelAt img4b 3 3 \<and>
   buildTree (gray 255) Quadtree_empty img4 (2 ^ 1) = buildTree (gray 255) Quadtree_empty img4b (2 ^ 1) \<and>
   buildTree (gray 255) Quadtree_empty img4 (2 ^ 1) \<noteq> None"
proof -
  have "\<forall>x y. 0 \<le> x \<and> x < 2 ^ 1 \<and> 0 \<le> y \<and> y < 2 ^ 1 \<longrightarrow> pixelAt img4 x y = pixelAt img4b x y"
    by (simp add: pixelAt_def inside_def img4b_def)
  note r = buildTree_reads_region_only [OF this, of "gray 255" Quadtree_empty]
  have wh: "(2::int) ^ 1 \<le> width img4 \<and> (2::int) ^ 1 \<le> height img4"
    by (simp add: img4_def)
  have "buildTree (gray 255) Quadtree_empty img4 (2 ^ 1) = buildTree (gray 255) Quadtree_empty img4b (2 ^ 1)"
    by (rule r [THEN conjunct1])
  moreover have "buildTree (gray 255) Quadtree_empty img4 (2 ^ 1) \<noteq> None"
    by (rule r [THEN conjunct2, rule_format, OF wh])
  moreover have "pixelAt img4 3 3 \<noteq> pixelAt img4b 3 3"
    by (simp add: pixelAt_def inside_def img4b_def img4_def gray_def)
  ultimately show ?thesis by blast
qed


section \<open>The structural invariant\<close>

text \<open>Copying onto a NULL pointer rebuilds the other subtree node by node.\<close>

lemma copyQuadtree_node_fresh: "copyQuadtree_node None (Some n) = Some n"
proof (induction n)
  case (QuadtreeNode nw ne sw se e)
  have "copyQuadtree_node None c = c" if "c = nw \<or> c = ne \<or> c = sw \<or> c = se" for c
    using that QuadtreeNode by (cases c) auto
  then show ?case by (simp add: QuadtreeNode_elem_def)
qed

lemma copyQuadtree_eq: "copyQuadtree this other = \<lparr>root = root other, res = res other\<rparr>"
proof -
  have "copyQuadtree_node None (root other) = root other"
    by (cases "root other") (simp_all add: copyQuadtree_node_fresh)
  then show ?thesis
    by (simp add: copyQuadtree_def deleteQuadtree_def deleteQuadtree_node_def Let_def)
qed

lemma prune_node_zeroOrFour:
  "zeroOrFour n \<Longrightarrow> \<exists>n'. prune_node tol n = Some n' \<and> zeroOrFour n'"
  using prune_node_agree by blast

text \<open>
  C7. Structural invariant: the empty tree has it; \<open>buildTree\<close> at a resolution
  \<open>2 ^ k\<close> that the source holds returns a tree that has it, whatever the tree was
  before; a copy (copy constructor, assignment from another tree, assignment of a tree
  to itself) of a tree that has it has it; \<open>prune\<close> and \<open>clockwiseRotate\<close> of a
  tree that has it complete and return a tree that has it.
\<close>

theorem invariant_preserved:
  "invariant Quadtree_empty \<and>
   (2 ^ k \<le> width source \<and> 2 ^ k \<le> height source \<longrightarrow>
      (\<exists>t'. buildTree dflt this source (2 ^ k) = Some t' \<and> invariant t')) \<and>
   (invariant t \<longrightarrow>
      invariant (Quadtree_copy t) \<and> invariant (assign this t) \<and> invariant (assign_self t) \<and>
      (\<exists>t'. prune t tolerance = Some t' \<and> invariant t') \<and>
      (\<exists>t'. clockwiseRotate t = Some t' \<and> invariant t'))"
proof (intro conjI impI)
  show "invariant Quadtree_empty"
    by (simp add: invariant_def Quadtree_empty_def)
next
  assume "2 ^ k \<le> width source \<and> 2 ^ k \<le> height source"
  with build_roundtrip [of 0 0 k source dflt]
  obtain n where "buildTree_node dflt source (2 ^ k) 0 0 = Some n" "zeroOrFour n" by auto
  then show "\<exists>t'. buildTree dflt this source (2 ^ k) = Some t' \<and> invariant t'"
    by (auto dest: buildTree_Some simp: invariant_def)
next
  assume "invariant t"
  then show "invariant (Quadtree_copy t)"
    by (simp add: Quadtree_copy_def copyQuadtree_eq invariant_def)
next
  assume "invariant t"
  then show "invariant (assign this t)"
    by (simp add: assign_def copyQuadtree_eq invariant_def)
next
  show "invariant (assign_self t)"
    by (simp add: assign_self_def deleteQuadtree_def deleteQuadtree_node_def invariant_def Let_def)
next
  assume inv: "invariant t"
  show "\<exists>t'. prune t tolerance = Some t' \<and> invariant t'"
  proof (cases "root t")
    case None
    with inv show ?thesis by (simp add: prune_def)
  next
    case (Some n)
    with inv prune_node_zeroOrFour [of n tolerance] show ?thesis
      by (auto simp: prune_def invariant_def)
  qed
next
  assume inv: "invariant t"
  show "\<exists>t'. clockwiseRotate t = Some t' \<and> invariant t'"
  proof (cases "root t")
    case None
    with inv show ?thesis by (simp add: clockwiseRotate_def)
  next
    case (Some n)
    with inv clockwiseRotate_node_zeroOrFour [of n] show ?thesis
      by (auto simp: clockwiseRotate_def invariant_def)
  qed
qed

theorem invariant_preserved_witness:
  "(2::int) ^ 1 \<le> width img2 \<and> (2::int) ^ 1 \<le> height img2 \<and>
   (\<exists>t'. buildTree (gray 255) tree1 img2 (2 ^ 1) = Some t' \<and> invariant t') \<and>
   invariant tree2 \<and>
   invariant (Quadtree_copy tree2) \<and> invariant (assign tree1 tree2) \<and> invariant (assign_self tree2) \<and>
   (\<exists>t'. prune tree2 675 = Some t' \<and> invariant t') \<and>
   (\<exists>t'. clockwiseRotate tree2 = Some t' \<and> invariant t')"
proof -
  have "(2::int) ^ 1 \<le> width img2 \<and> (2::int) ^ 1 \<le> height img2"
    by (simp add: img2_def)
  then show ?thesis
    using invariant_tree2
      invariant_preserved [where k = 1 and source = img2 and dflt = "gray 255"
        and this = tree1 and t = tree2 and tolerance = 675]
    by blast
qed

section \<open>The empty tree and coordinates out of range\<close>

text \<open>
  C9. Defined fallbacks: \<open>getPixel\<close> returns the default-constructed pixel when the
  coordinates are out of range or the tree is empty; on an empty tree \<open>decompress\<close>
  returns the default-constructed image, \<open>pruneSize\<close> returns 0 and \<open>idealPrune\<close>
  returns the minimum tolerance 0. Each of them returns; the default-constructed tree is
  empty.
\<close>

theorem empty_and_out_of_range_fallbacks:
  "(outOfBound t x y \<or> root t = None \<longrightarrow> getPixel dflt t x y = Some dflt) \<and>
   (root t = None \<longrightarrow>
      decompress emptyPNG init t = Some emptyPNG \<and> pruneSize t tolerance = Some 0 \<and>
      idealPrune t numLeaves = Some MIN_TOLERANCE \<and> MIN_TOLERANCE = 0) \<and>
   root Quadtree_empty = None"
  by (simp add: getPixel_def decompress_def pruneSize_def idealPrune_def MIN_TOLERANCE_def
      Quadtree_empty_def)

theorem empty_and_out_of_range_fallbacks_witness:
  "root Quadtree_empty = None \<and>
   getPixel (gray 7) Quadtree_empty 0 0 = Some (gray 7) \<and>
   decompress img1 (\<lambda>p. gray 7) Quadtree_empty = Some img1 \<and>
   pruneSize Quadtree_empty 5 = Some 0 \<and>
   idealPrune Quadtree_empty 3 = Some 0 \<and>
   outOfBound tree2 2 0 \<and> root tree2 \<noteq> None \<and>
   getPixel (gray 7) tree2 2 0 = Some (gray 7)"
proof -
  have e: "root Quadtree_empty = None" by (simp add: Quadtree_empty_def)
  have o: "outOfBound tree2 2 0" "root tree2 \<noteq> None" by (simp_all add: outOfBound_def tree2_def)
  show ?thesis
    using e o
      empty_and_out_of_range_fallbacks [where t = Quadtree_empty and x = 0 and y = 0
        and dflt = "gray 7" and emptyPNG = img1 and init = "\<lambda>p. gray 7" and tolerance = 5
        and numLeaves = 3]
      empty_and_out_of_range_fallbacks [where t = tree2 and x = 2 and y = 0
        and dflt = "gray 7" and emptyPNG = img1 and init = "\<lambda>p. gray 7" and tolerance = 5
        and numLeaves = 3]
    by simp
qed

section \<open>The tolerance search\<close>

text \<open>When the search returns, the tolerance it returns passes the test of the code: the
  count at it is within the target and the count just below it is not.\<close>

lemma searchTolerance_sound:
  assumes "searchTolerance t n lo hi = Some r"
  shows "\<exists>a b. pruneSize t r = Some a \<and> a \<le> n \<and> pruneSize t (r - 1) = Some b \<and> n < b"
proof (rule searchTolerance.raw_induct
    [where P = "\<lambda>t n lo hi r. \<exists>a b. pruneSize t r = Some a \<and> a \<le> n \<and>
         pruneSize t (r - 1) = Some b \<and> n < b", OF _ assms], goal_cases)
  case (1 search t n lo hi r)
  let ?mid = "(lo + hi) sdiv 2"
  from 1(2) obtain a where a: "pruneSize t ?mid = Some a"
    by (auto simp: Let_def bind_eq_Some_conv)
  show ?case
  proof (cases "a \<le> n")
    case False
    with 1(2) a have "search t n ?mid hi = Some r" by (simp add: Let_def)
    then show ?thesis by (rule 1(1))
  next
    case True
    with 1(2) a obtain b where b: "pruneSize t (?mid - 1) = Some b"
      by (auto simp: Let_def bind_eq_Some_conv)
    show ?thesis
    proof (cases "n < b")
      case True
      with 1(2) a b \<open>a \<le> n\<close> have "r = ?mid" by (simp add: Let_def)
      with a b True \<open>a \<le> n\<close> show ?thesis by simp
    next
      case False
      with 1(2) a b \<open>a \<le> n\<close> have "search t n lo ?mid = Some r" by (simp add: Let_def)
      then show ?thesis by (rule 1(1))
    qed
  qed
qed

text \<open>The search never returns when every probe finds the count within the target: it
  keeps the lower half for ever.\<close>

lemma searchTolerance_no_return_low:
  assumes "searchTolerance t n lo hi = Some r"
  shows "\<not> (\<forall>tol. \<exists>a. pruneSize t tol = Some a \<and> a \<le> n)"
proof (rule searchTolerance.raw_induct
    [where P = "\<lambda>t n lo hi r. \<not> (\<forall>tol. \<exists>a. pruneSize t tol = Some a \<and> a \<le> n)", OF _ assms],
    goal_cases)
  case (1 search t n lo hi r)
  show ?case
  proof
    assume all: "\<forall>tol. \<exists>a. pruneSize t tol = Some a \<and> a \<le> n"
    let ?mid = "(lo + hi) sdiv 2"
    from all obtain a where a: "pruneSize t ?mid = Some a" "a \<le> n" by blast
    from all obtain b where b: "pruneSize t (?mid - 1) = Some b" "b \<le> n" by blast
    from 1(2) a b have "search t n lo ?mid = Some r"
      by (simp add: Let_def)
    from 1(1) [OF this] all show False by blast
  qed
qed

text \<open>Nor does it return when every tolerance below the upper end leaves too many
  leaves: the upper end itself is never probed.\<close>

lemma searchTolerance_no_return_high:
  assumes "searchTolerance t n lo hi = Some r"
  shows "\<not> (0 \<le> lo \<and> lo < hi \<and> (\<forall>tol < hi. \<exists>a. pruneSize t tol = Some a \<and> n < a))"
proof (rule searchTolerance.raw_induct
    [where P = "\<lambda>t n lo hi r.
       \<not> (0 \<le> lo \<and> lo < hi \<and> (\<forall>tol < hi. \<exists>a. pruneSize t tol = Some a \<and> n < a))",
     OF _ assms], goal_cases)
  case (1 search t n lo hi r)
  show ?case
  proof
    assume asm: "0 \<le> lo \<and> lo < hi \<and> (\<forall>tol < hi. \<exists>a. pruneSize t tol = Some a \<and> n < a)"
    let ?mid = "(lo + hi) sdiv 2"
    have eq: "?mid = (lo + hi) div 2" using asm by (simp add: signed_divide_int_def sgn_if)
    have bounds: "lo \<le> ?mid" "?mid < hi" using asm unfolding eq by linarith+
    with asm obtain a where a: "pruneSize t ?mid = Some a" "n < a" by blast
    from 1(2) a have "search t n ?mid hi = Some r"
      by (simp add: Let_def)
    from 1(1) [OF this] asm bounds show False by auto
  qed
qed

lemma countLeaves_node_pos: "zeroOrFour n \<Longrightarrow> 1 \<le> countLeaves_node n"
  by (induction n rule: zeroOrFour.induct) auto

lemma pruneSize_node_le_countLeaves:
  "zeroOrFour n \<Longrightarrow> \<exists>k. pruneSize_node tol n = Some k \<and> k \<le> countLeaves_node n"
proof (induction n rule: zeroOrFour.induct)
  case (1 e)
  show ?case by simp
next
  case (2 a b c d e)
  let ?N = "QuadtreeNode (Some a) (Some b) (Some c) (Some d) e"
  from 2 have wf: "zeroOrFour ?N" by simp
  obtain p where p: "isChildrenPrunable tol ?N ?N = Some p"
    using wf isChildrenPrunable_total by blast
  from 2 obtain ka kb kc kd where k:
    "pruneSize_node tol a = Some ka" "ka \<le> countLeaves_node a"
    "pruneSize_node tol b = Some kb" "kb \<le> countLeaves_node b"
    "pruneSize_node tol c = Some kc" "kc \<le> countLeaves_node c"
    "pruneSize_node tol d = Some kd" "kd \<le> countLeaves_node d"
    by auto
  have pos: "1 \<le> countLeaves_node ?N" using wf by (rule countLeaves_node_pos)
  show ?case
  proof (cases p)
    case True
    then have "pruneSize_node tol ?N = Some 1" by (simp only: pruneSize_node_four p) simp
    with pos show ?thesis by simp
  next
    case False
    then have "pruneSize_node tol ?N = Some (ka + kb + kc + kd)"
      by (simp only: pruneSize_node_four p k) simp
    with k show ?thesis by simp
  qed
qed simp_all

text \<open>So \<open>idealPrune\<close> returns nothing on a non-empty tree that has no more leaves than
  the target.\<close>

lemma idealPrune_None_leaves_fit:
  assumes "invariant t" and "root t \<noteq> None" and "countLeaves t \<le> numLeaves"
  shows "idealPrune t numLeaves = None"
proof -
  from assms(2) obtain n where n: "root t = Some n" by auto
  with assms(1) have wf: "zeroOrFour n" by (simp add: invariant_def)
  have "\<forall>tol. \<exists>a. pruneSize t tol = Some a \<and> a \<le> numLeaves"
  proof
    fix tol
    from pruneSize_node_le_countLeaves [OF wf, of tol] n assms(3)
    show "\<exists>a. pruneSize t tol = Some a \<and> a \<le> numLeaves"
      by (auto simp: pruneSize_def countLeaves_def)
  qed
  then have "searchTolerance t numLeaves MIN_TOLERANCE MAX_TOLERANCE \<noteq> Some r" for r
    using searchTolerance_no_return_low by blast
  then have "searchTolerance t numLeaves MIN_TOLERANCE MAX_TOLERANCE = None" by auto
  with assms(2) show ?thesis by (simp add: idealPrune_def)
qed

text \<open>A tolerance that admits the target exists all the same: at \<open>MAX_TOLERANCE\<close> every
  node is prunable, and the count is one.\<close>

lemma square_le: "\<bar>d\<bar> \<le> 255 \<Longrightarrow> square d \<le> 255 * 255"
proof -
  assume "\<bar>d\<bar> \<le> 255"
  then have "\<bar>d\<bar> * \<bar>d\<bar> \<le> 255 * 255" by (intro mult_mono) simp_all
  then show ?thesis by (simp add: square_def abs_mult_self_eq)
qed

lemma uint8_diff: "\<bar>uint (a::8 word) - uint (b::8 word)\<bar> \<le> 255"
proof -
  have "uint a < 256" "uint b < 256" using uint_lt2p [of a] uint_lt2p [of b] by simp_all
  moreover have "0 \<le> uint a" "0 \<le> uint b" by simp_all
  ultimately show ?thesis by linarith
qed

lemma isPrunable_MAX: "isPrunable MAX_TOLERANCE a b"
  using square_le [OF uint8_diff [of "red a" "red b"]]
    square_le [OF uint8_diff [of "green a" "green b"]]
    square_le [OF uint8_diff [of "blue a" "blue b"]]
  by (simp add: isPrunable_def MAX_TOLERANCE_def Let_def)

lemma isChildrenPrunable_MAX:
  "zeroOrFour n \<Longrightarrow> isChildrenPrunable MAX_TOLERANCE r n = Some True"
  by (induction n rule: zeroOrFour.induct) (auto simp: isPrunable_MAX)

lemma pruneSize_node_MAX: "zeroOrFour n \<Longrightarrow> pruneSize_node MAX_TOLERANCE n = Some 1"
proof (induction n rule: zeroOrFour.induct)
  case (2 a b c d e)
  then have "zeroOrFour (QuadtreeNode (Some a) (Some b) (Some c) (Some d) e)" by simp
  from isChildrenPrunable_MAX [OF this] show ?case
    by (simp only: pruneSize_node_four) simp
qed simp_all

text \<open>Monotonicity of the count, as the search uses it.\<close>

lemma pruneSize_mono:
  assumes "invariant t" and "t1 \<le> t2"
  shows "\<exists>a b. pruneSize t t1 = Some a \<and> pruneSize t t2 = Some b \<and> b \<le> a"
proof (cases "root t")
  case None
  then show ?thesis by (simp add: pruneSize_def)
next
  case (Some n)
  with assms have "zeroOrFour n" by (simp add: invariant_def)
  from pruneSize_node_mono [OF this assms(2)] Some show ?thesis
    by (simp add: pruneSize_def)
qed

text \<open>At a negative tolerance nothing is prunable, and the count is the number of leaves.\<close>

lemma isChildrenPrunable_negative:
  "zeroOrFour n \<Longrightarrow> tol < 0 \<Longrightarrow> isChildrenPrunable tol r n = Some False"
proof (induction n rule: zeroOrFour.induct)
  case (1 e)
  have sq: "0 \<le> square a" for a by (simp add: square_def)
  have "\<not> isPrunable tol (element r) e"
    unfolding isPrunable_def Let_def
    using sq [of "uint (red (element r)) - uint (red e)"]
      sq [of "uint (green (element r)) - uint (green e)"]
      sq [of "uint (blue (element r)) - uint (blue e)"] \<open>tol < 0\<close>
    by linarith
  then show ?case by simp
qed auto

lemma pruneSize_node_negative:
  "zeroOrFour n \<Longrightarrow> tol < 0 \<Longrightarrow> pruneSize_node tol n = Some (countLeaves_node n)"
proof (induction n rule: zeroOrFour.induct)
  case (2 a b c d e)
  then have "zeroOrFour (QuadtreeNode (Some a) (Some b) (Some c) (Some d) e)" by simp
  from isChildrenPrunable_negative [OF this \<open>tol < 0\<close>] 2 show ?case
    by (simp only: pruneSize_node_four) simp
qed simp_all

text \<open>Between a lower end whose predecessor leaves too many leaves and an upper end whose
  predecessor leaves few enough, the search returns, and what it returns is the least
  tolerance that leaves few enough.\<close>

lemma searchTolerance_returns:
  assumes inv: "invariant t"
  shows "0 \<le> lo \<Longrightarrow> lo < hi \<Longrightarrow>
    (\<exists>a. pruneSize t (lo - 1) = Some a \<and> n < a) \<Longrightarrow>
    (\<exists>b. pruneSize t (hi - 1) = Some b \<and> b \<le> n) \<Longrightarrow>
    \<exists>r a b. searchTolerance t n lo hi = Some r \<and> lo \<le> r \<and> r < hi \<and>
       pruneSize t r = Some a \<and> a \<le> n \<and> pruneSize t (r - 1) = Some b \<and> n < b"
proof (induction "nat (hi - lo)" arbitrary: lo hi rule: less_induct)
  case less
  let ?mid = "(lo + hi) sdiv 2"
  have eq: "?mid = (lo + hi) div 2" using less.prems by (simp add: signed_divide_int_def sgn_if)
  have bounds: "lo \<le> ?mid" "?mid < hi" using less.prems unfolding eq by linarith+
  obtain a where a: "pruneSize t ?mid = Some a"
    using pruneSize_mono [OF inv, of ?mid ?mid] by auto
  obtain b where b: "pruneSize t (?mid - 1) = Some b" "a \<le> b"
    using pruneSize_mono [OF inv, of "?mid - 1" ?mid] a by auto
  show ?case
  proof (cases "a \<le> n")
    case False
    from less.prems(4) a False have "?mid \<noteq> hi - 1" by auto
    moreover from less.prems(4) a False have "lo + 1 \<noteq> hi"
      using eq by (auto simp: algebra_simps)
    ultimately have m: "lo < ?mid" using less.prems(2) unfolding eq by linarith
    have "\<exists>r a b. searchTolerance t n ?mid hi = Some r \<and> ?mid \<le> r \<and> r < hi \<and>
       pruneSize t r = Some a \<and> a \<le> n \<and> pruneSize t (r - 1) = Some b \<and> n < b"
      using m bounds less.prems b False by (intro less.hyps) auto
    moreover have "searchTolerance t n lo hi = searchTolerance t n ?mid hi"
      using a False by (subst searchTolerance.simps) (simp add: Let_def)
    ultimately show ?thesis using bounds by (metis order_trans)
  next
    case True
    show ?thesis
    proof (cases "n < b")
      case True
      have "searchTolerance t n lo hi = Some ?mid"
        using a b True \<open>a \<le> n\<close> by (subst searchTolerance.simps) (simp add: Let_def)
      with a b True \<open>a \<le> n\<close> bounds show ?thesis by auto
    next
      case False
      with less.prems(3) b have "?mid \<noteq> lo" by auto
      with bounds have m: "lo < ?mid" by simp
      have "\<exists>r a b. searchTolerance t n lo ?mid = Some r \<and> lo \<le> r \<and> r < ?mid \<and>
         pruneSize t r = Some a \<and> a \<le> n \<and> pruneSize t (r - 1) = Some b \<and> n < b"
        using m bounds less.prems b False by (intro less.hyps) auto
      moreover have "searchTolerance t n lo hi = searchTolerance t n lo ?mid"
        using a b False \<open>a \<le> n\<close> by (subst searchTolerance.simps) (simp add: Let_def)
      ultimately show ?thesis using bounds by (metis less_trans)
    qed
  qed
qed

text \<open>So \<open>idealPrune\<close> returns the minimum tolerance exactly in between: when the tree
  has more leaves than the target and the tolerance just below \<open>MAX_TOLERANCE\<close> already
  meets the target.\<close>

lemma idealPrune_returns_minimum:
  assumes inv: "invariant t" and ne: "root t \<noteq> None"
    and more: "numLeaves < countLeaves t"
    and top: "\<exists>b. pruneSize t (MAX_TOLERANCE - 1) = Some b \<and> b \<le> numLeaves"
  shows "\<exists>r a. idealPrune t numLeaves = Some r \<and> 0 \<le> r \<and> r < MAX_TOLERANCE \<and>
     pruneSize t r = Some a \<and> a \<le> numLeaves \<and>
     (\<forall>t'. t' < r \<longrightarrow> (\<exists>b. pruneSize t t' = Some b \<and> numLeaves < b))"
proof -
  from ne obtain n where n: "root t = Some n" by auto
  with inv have wf: "zeroOrFour n" by (simp add: invariant_def)
  have low: "\<exists>a. pruneSize t (MIN_TOLERANCE - 1) = Some a \<and> numLeaves < a"
    using pruneSize_node_negative [OF wf, of "-1"] n more
    by (simp add: pruneSize_def countLeaves_def MIN_TOLERANCE_def)
  have "\<exists>r a b. searchTolerance t numLeaves MIN_TOLERANCE MAX_TOLERANCE = Some r \<and>
      MIN_TOLERANCE \<le> r \<and> r < MAX_TOLERANCE \<and>
      pruneSize t r = Some a \<and> a \<le> numLeaves \<and> pruneSize t (r - 1) = Some b \<and> numLeaves < b"
    using low top by (intro searchTolerance_returns [OF inv])
      (simp_all add: MIN_TOLERANCE_def MAX_TOLERANCE_def)
  then obtain r a b where r: "searchTolerance t numLeaves MIN_TOLERANCE MAX_TOLERANCE = Some r"
    "0 \<le> r" "r < MAX_TOLERANCE" "pruneSize t r = Some a" "a \<le> numLeaves"
    "pruneSize t (r - 1) = Some b" "numLeaves < b"
    by (auto simp: MIN_TOLERANCE_def)
  have "\<exists>c. pruneSize t t' = Some c \<and> numLeaves < c" if "t' < r" for t'
  proof -
    from that have "t' \<le> r - 1" by simp
    from pruneSize_mono [OF inv this] r(6,7) show ?thesis by auto
  qed
  with r ne show ?thesis by (auto simp: idealPrune_def)
qed

text \<open>
  C2. The claim is that on every non-empty tree \<open>idealPrune(numLeaves)\<close> returns the
  minimum tolerance. On the tree built from a one-pixel bitmap and the target 1, and on
  the tree built from a 2 x 2 bitmap and the target 4, the tolerance 0 already leaves no
  more leaves than the target, yet \<open>idealPrune\<close> returns nothing.
\<close>

theorem idealPrune_no_result_leaves_fit:
  "Quadtree_build dflt img1 1 = Some tree1 \<and> pruneSize tree1 0 = Some 1 \<and>
   idealPrune tree1 1 = None \<and>
   Quadtree_build dflt img2 2 = Some tree2 \<and> pruneSize tree2 0 = Some 4 \<and>
   idealPrune tree2 4 = None"
proof -
  have "pruneSize tree1 0 = Some 1"
    by (simp add: pruneSize_def tree1_def QuadtreeNode_elem_def)
  moreover have "pruneSize tree2 0 = Some 4"
    by (simp add: pruneSize_def tree2_def QuadtreeNode_elem_def isPrunable_def square_def gray_def)
  moreover have "idealPrune tree1 1 = None"
    by (rule idealPrune_None_leaves_fit [OF invariant_tree1])
       (simp_all add: tree1_def countLeaves_def QuadtreeNode_elem_def)
  moreover have "idealPrune tree2 4 = None"
    by (rule idealPrune_None_leaves_fit [OF invariant_tree2])
       (simp_all add: tree2_def countLeaves_def QuadtreeNode_elem_def)
  ultimately show ?thesis using build1 build2 by simp
qed

text \<open>The complete tree over a 16 x 16 bitmap that is black but for one white pixel: the
  averages round down to black at the root, so the white leaf is at the greatest distance
  \<open>3 * 255 * 255\<close> from it, and the root is prunable at \<open>MAX_TOLERANCE\<close> only.\<close>

lemma build16_not_prunable:
  "(do { n \<leftarrow> buildTree_node dflt img16 16 0 0;
         isChildrenPrunable (MAX_TOLERANCE - 1) n n }) = Some False"
  by (simp add: buildTree_node.simps pixelAt_def inside_def img16_def MAX_TOLERANCE_def
      Let_def getAvgPixelOfChildren_def getAvg_def gray_def isPrunable_def square_def
      QuadtreeNode_elem_def QuadtreeNode_new_def)

lemma pruneSize_node_not_prunable:
  assumes "zeroOrFour n" and "isChildrenPrunable hi n n = Some False" and "tol \<le> hi"
    and "0 \<le> hi"
  shows "\<exists>k. pruneSize_node tol n = Some k \<and> 1 < k"
proof (cases n)
  case (QuadtreeNode nw ne sw se e)
  show ?thesis
  proof (cases nw)
    case None
    with QuadtreeNode assms(2,4) show ?thesis
      by (simp add: isPrunable_def square_def Let_def)
  next
    case (Some a)
    with QuadtreeNode assms(1) obtain b c d where
      N: "n = QuadtreeNode (Some a) (Some b) (Some c) (Some d) e"
      and wf: "zeroOrFour a" "zeroOrFour b" "zeroOrFour c" "zeroOrFour d"
      by (cases ne; cases sw; cases se) auto
    obtain p where p: "isChildrenPrunable tol n n = Some p"
      using assms(1) isChildrenPrunable_total by blast
    have "\<not> p"
      using isChildrenPrunable_mono [OF assms(1,3), of n] p assms(2) by auto
    obtain ka kb kc kd where k:
      "pruneSize_node tol a = Some ka" "1 \<le> ka" "pruneSize_node tol b = Some kb" "1 \<le> kb"
      "pruneSize_node tol c = Some kc" "1 \<le> kc" "pruneSize_node tol d = Some kd" "1 \<le> kd"
      using wf pruneSize_node_pos by metis
    have "pruneSize_node tol n = Some (ka + kb + kc + kd)"
      using \<open>\<not> p\<close> p unfolding N by (simp only: pruneSize_node_four k) simp
    with k show ?thesis by simp
  qed
qed

text \<open>
  C3. The claim is that the tolerance search of \<open>idealPrune(numLeaves)\<close> terminates on
  every tree for every \<open>numLeaves \<ge> 1\<close>. On the tree built from that 16 x 16 bitmap and
  the target 1, the count is 1 at \<open>MAX_TOLERANCE\<close> and above 1 at every tolerance
  below, so \<open>MAX_TOLERANCE\<close> is the minimum tolerance; the search never probes it and
  \<open>idealPrune\<close> returns nothing.
\<close>

theorem idealPrune_no_result_at_MAX_TOLERANCE:
  "\<exists>t. Quadtree_build dflt img16 16 = Some t \<and> invariant t \<and>
        pruneSize t MAX_TOLERANCE = Some 1 \<and>
        (\<exists>k. pruneSize t (MAX_TOLERANCE - 1) = Some k \<and> 1 < k) \<and>
        idealPrune t 1 = None"
proof -
  have dims: "0 + 2 ^ 4 \<le> width img16" "0 + 2 ^ 4 \<le> height img16"
    by (simp_all add: img16_def)
  from build_roundtrip [of 0 0 4 img16 dflt] dims
  obtain n where n: "buildTree_node dflt img16 16 0 0 = Some n" and wf: "zeroOrFour n"
    by auto
  let ?t = "\<lparr>root = Some n, res = 16\<rparr>"
  have b: "Quadtree_build dflt img16 16 = Some ?t"
    unfolding Quadtree_build_def using n by (rule buildTree_Some)
  have inv: "invariant ?t" using wf by (simp add: invariant_def)
  have np: "isChildrenPrunable (MAX_TOLERANCE - 1) n n = Some False"
    using build16_not_prunable [of dflt] n by simp
  have above: "\<exists>k. pruneSize ?t tol = Some k \<and> 1 < k" if "tol < MAX_TOLERANCE" for tol
    using pruneSize_node_not_prunable [OF wf np, of tol] that
    by (simp add: pruneSize_def MAX_TOLERANCE_def)
  have "searchTolerance ?t 1 MIN_TOLERANCE MAX_TOLERANCE \<noteq> Some r" for r
    using searchTolerance_no_return_high [of ?t 1 MIN_TOLERANCE MAX_TOLERANCE r] above
    by (auto simp: MIN_TOLERANCE_def MAX_TOLERANCE_def)
  then have "searchTolerance ?t 1 MIN_TOLERANCE MAX_TOLERANCE = None" by auto
  then have "idealPrune ?t 1 = None" by (simp add: idealPrune_def)
  moreover have "pruneSize ?t MAX_TOLERANCE = Some 1"
    using pruneSize_node_MAX [OF wf] by (simp add: pruneSize_def)
  moreover have "\<exists>k. pruneSize ?t (MAX_TOLERANCE - 1) = Some k \<and> 1 < k"
    by (rule above) simp
  ultimately show ?thesis using b inv by blast
qed

section \<open>The pixel query\<close>

lemma build4_getPixel:
  "(do { t \<leftarrow> Quadtree_build dflt img4 4; getPixel dflt t 2 0 }) = Some (gray 3)"
  by (simp add: Quadtree_build_def buildTree_def buildTree_node.simps pixelAt_def inside_def img4_def
      deleteQuadtree_def Quadtree_empty_def getPixel_def outOfBound_def Let_def getAvgPixelOfChildren_def
      QuadtreeNode_elem_def QuadtreeNode_new_def)

lemma build4_decompress:
  "(do { t \<leftarrow> Quadtree_build dflt img4 4; img \<leftarrow> decompress emptyPNG init t; pixelAt img 2 0 }) =
     Some (gray 2)"
  by (simp add: Quadtree_build_def buildTree_def buildTree_node.simps pixelAt_def inside_def img4_def
      deleteQuadtree_def Quadtree_empty_def decompress_def PNG_sized_def Let_def getAvgPixelOfChildren_def
      QuadtreeNode_elem_def QuadtreeNode_new_def transform_outer.simps transform_inner.simps setPixelAt_def)

text \<open>
  C1. The claim is that \<open>getPixel(x, y)\<close> is the pixel at \<open>(x, y)\<close> of the image that
  \<open>decompress()\<close> returns. \<open>getPixel\<close> passes \<open>x\<close> and \<open>y\<close> down unchanged while it
  halves the resolution, so below an east or south child the comparison with the midpoint
  always picks east or south again. On the tree built from the 4 x 4 bitmap \<open>img4\<close>,
  whose pixel at \<open>(x, y)\<close> is the gray \<open>x\<close>, \<open>getPixel(2, 0)\<close> returns the pixel of
  column 3, while the decompressed image holds the pixel of column 2 there, as does the source.
\<close>

theorem getPixel_differs_from_decompress:
  "\<exists>t img. Quadtree_build dflt img4 4 = Some t \<and> invariant t \<and>
     decompress emptyPNG init t = Some img \<and>
     getPixel dflt t 2 0 = Some (gray 3) \<and>
     pixelAt img 2 0 = Some (gray 2) \<and>
     pixelAt img4 2 0 = Some (gray 2) \<and> gray 2 \<noteq> gray 3"
proof -
  have w: "(2::int) ^ 2 \<le> width img4" and h: "(2::int) ^ 2 \<le> height img4"
    by (simp_all add: img4_def)
  from build_roundtrip [of 0 0 2 img4 dflt] w h
  obtain n where n: "buildTree_node dflt img4 4 0 0 = Some n" and wf: "zeroOrFour n"
    and T: "\<forall>img. 4 \<le> width img \<longrightarrow> 4 \<le> height img \<longrightarrow>
              (\<exists>img'. transform img 4 0 0 n = Some img')"
    by fastforce
  define t where "t = \<lparr>root = Some n, res = 4\<rparr>"
  have t: "Quadtree_build dflt img4 4 = Some t" "invariant t"
    unfolding Quadtree_build_def t_def using n wf
    by (simp_all add: buildTree_Some invariant_def)
  from T [rule_format, of "PNG_sized init 4 4"] obtain img where img: "decompress emptyPNG init t = Some img"
    by (auto simp: decompress_def t_def PNG_sized_def)
  have "getPixel dflt t 2 0 = Some (gray 3)"
    using build4_getPixel [of dflt] t by simp
  moreover have "pixelAt img 2 0 = Some (gray 2)"
    using build4_decompress [of dflt emptyPNG init] t img by simp
  moreover have "pixelAt img4 2 0 = Some (gray 2)"
    by (simp add: pixelAt_def inside_def img4_def)
  moreover have "gray 2 \<noteq> gray 3" by (simp add: gray_def)
  ultimately show ?thesis using t img by blast
qed

end
